theory Spec2Isabelle
  imports Main "HOL-Library.Char_ord"
begin

section \<open>Data model\<close>

text \<open>
  Go strings and byte slices are sequences of bytes; \<^typ>\<open>char\<close> is a byte, so both are
  \<^typ>\<open>string\<close>. A \<open>uuid.UUID\<close> is a \<open>[16]byte\<close>: a byte string, of length 16 wherever it
  comes from \<open>uuid.New\<close> or \<open>uuid.Parse\<close>. A \<open>time.Time\<close> is an instant and a
  \<open>time.Duration\<close> a signed count, both in nanoseconds; the code only adds a duration
  to an instant and compares, so both are \<^typ>\<open>int\<close>.
\<close>

type_synonym uuid = string
type_synonym Time = int
type_synonym Duration = int

definition Millisecond :: Duration where
  "Millisecond = 1000000"

definition Second :: Duration where
  "Second = 1000000000"

definition Hour :: Duration where
  "Hour = 3600 * Second"

record Token =
  ID :: uuid
  UserID :: string
  Action :: string
  ExpiresAt :: Time
  Used :: bool

text \<open>
  The sentinel errors of the package, and \<open>ErrOther\<close> for every other error value: the
  \<open>fmt.Errorf\<close> messages of the manager and whatever a backend reports.
\<close>

datatype error =
    ErrNotFound
  | ErrExpired
  | ErrUsed
  | ErrBadSignature
  | ErrBadPayload
  | ErrRateLimitExceeded
  | ErrOther string

section \<open>The Store interface and the in-memory store\<close>

text \<open>
  \<open>Store\<close> is an interface of three methods on a receiver that may change; a store is
  the record of its methods over the type of its state. A method returns its result and
  the state it leaves (\<open>None\<close> is the \<open>nil\<close> error).
\<close>

record 's Store =
  Save :: "'s \<Rightarrow> Token \<Rightarrow> Duration \<Rightarrow> error option \<times> 's"
  Get :: "'s \<Rightarrow> uuid \<Rightarrow> (error + Token) \<times> 's"
  MarkUsed :: "'s \<Rightarrow> uuid \<Rightarrow> error option \<times> 's"

text \<open>
  \<open>MemoryStore\<close>: the map \<open>data\<close>; every method holds the mutex from entry to return, so
  each is one atomic function of the map.
\<close>

type_synonym MemoryStore = "uuid \<rightharpoonup> Token"

definition NewMemoryStore :: MemoryStore where
  "NewMemoryStore = Map.empty"

definition MemoryStore_Save :: "MemoryStore \<Rightarrow> Token \<Rightarrow> Duration \<Rightarrow> error option \<times> MemoryStore" where
  "MemoryStore_Save s t ttl = (None, s(ID t \<mapsto> t))"

definition MemoryStore_Get :: "MemoryStore \<Rightarrow> uuid \<Rightarrow> (error + Token) \<times> MemoryStore" where
  "MemoryStore_Get s tid = (case s tid of None \<Rightarrow> (Inl ErrNotFound, s) | Some t \<Rightarrow> (Inr t, s))"

definition MemoryStore_MarkUsed :: "MemoryStore \<Rightarrow> uuid \<Rightarrow> error option \<times> MemoryStore" where
  "MemoryStore_MarkUsed s tid =
     (case s tid of
        None \<Rightarrow> (Some ErrNotFound, s)
      | Some t \<Rightarrow> (None, s(tid \<mapsto> t\<lparr>Used := True\<rparr>)))"

definition memoryStore :: "MemoryStore Store" where
  "memoryStore = \<lparr>Save = MemoryStore_Save, Get = MemoryStore_Get, MarkUsed = MemoryStore_MarkUsed\<rparr>"

section \<open>Identifiers as text\<close>

text \<open>
  \<open>uuid.UUID.String\<close> writes the 16 bytes as lower-case hexadecimal digits in groups of
  4, 2, 2, 2 and 6 bytes separated by hyphens. \<open>uuid.Parse\<close> reads that form (36
  bytes), the same after \<open>urn:uuid:\<close> (45), the same between two more bytes (38, the
  first of them dropped and the rest beyond 36 not read) and 32 hexadecimal digits with no
  hyphen; digits of either case.
\<close>

definition hexdigit :: "nat \<Rightarrow> char" where
  "hexdigit n = ''0123456789abcdef'' ! n"

definition hex_byte :: "char \<Rightarrow> string" where
  "hex_byte c = [hexdigit (of_char c div 16), hexdigit (of_char c mod 16)]"

definition hex_Encode :: "string \<Rightarrow> string" where
  "hex_Encode bs = concat (map hex_byte bs)"

definition uuid_String :: "uuid \<Rightarrow> string" where
  "uuid_String u =
     hex_Encode (take 4 u) @ ''-'' @ hex_Encode (take 2 (drop 4 u)) @ ''-'' @
     hex_Encode (take 2 (drop 6 u)) @ ''-'' @ hex_Encode (take 2 (drop 8 u)) @ ''-'' @
     hex_Encode (drop 10 u)"

definition xvalue :: "char \<Rightarrow> nat option" where
  "xvalue c =
     (let n = (of_char c :: nat) in
      if 48 \<le> n \<and> n \<le> 57 then Some (n - 48)
      else if 97 \<le> n \<and> n \<le> 102 then Some (n - 87)
      else if 65 \<le> n \<and> n \<le> 70 then Some (n - 55)
      else None)"

definition xtob :: "char \<Rightarrow> char \<Rightarrow> char option" where
  "xtob x1 x2 =
     (case xvalue x1 of
        None \<Rightarrow> None
      | Some b1 \<Rightarrow> (case xvalue x2 of None \<Rightarrow> None | Some b2 \<Rightarrow> Some (char_of (b1 * 16 + b2))))"

definition ascii_lower :: "char \<Rightarrow> char" where
  "ascii_lower c =
     (let n = (of_char c :: nat) in if 65 \<le> n \<and> n \<le> 90 then char_of (n + 32) else c)"

definition parse_hyphenated :: "string \<Rightarrow> uuid option" where
  "parse_hyphenated s =
     (if s ! 8 \<noteq> CHR ''-'' \<or> s ! 13 \<noteq> CHR ''-'' \<or> s ! 18 \<noteq> CHR ''-'' \<or> s ! 23 \<noteq> CHR ''-''
      then None
      else those (map (\<lambda>x. xtob (s ! x) (s ! (x + 1)))
                   [0, 2, 4, 6, 9, 11, 14, 16, 19, 21, 24, 26, 28, 30, 32, 34]))"

definition uuid_Parse :: "string \<Rightarrow> uuid option" where
  "uuid_Parse s =
     (if length s = 36 then parse_hyphenated s
      else if length s = 45 then
        (if map ascii_lower (take 9 s) = ''urn:uuid:'' then parse_hyphenated (drop 9 s) else None)
      else if length s = 38 then parse_hyphenated (drop 1 s)
      else if length s = 32 then
        those (map (\<lambda>i. xtob (s ! (2 * i)) (s ! (2 * i + 1))) [0..<16])
      else None)"

section \<open>The cache-backed store\<close>

text \<open>
  The server a \<open>RedisStore\<close> talks to: its keys, each with a value and an optional
  expiry (an absolute time in milliseconds), its clock in milliseconds, and whether the
  client reaches it. The value under a token's key is the JSON text of the token; it is
  modelled by the token it stands for, so \<open>json.Marshal\<close>, \<open>json.Unmarshal\<close> and the
  script's \<open>cjson.decode\<close> and \<open>cjson.encode\<close> are taken to lose nothing of a token and
  never to fail. A command that does not reach the server returns an error and changes
  nothing.

  The commands follow the server: a key with an expiry is gone once the clock is past
  the expiry; \<open>PTTL\<close> answers -2 for no key, -1 for a key with no expiry, and otherwise
  the milliseconds left, never less than 0; \<open>SET\<close> without an option drops the expiry,
  \<open>SET ... PX ms\<close> sets it \<open>ms\<close> after the clock. The clock stands still while a script
  runs.
\<close>

record redis_entry =
  blob :: Token
  expire :: "int option"

record Redis =
  db :: "string \<rightharpoonup> redis_entry"
  mstime :: int
  online :: bool

definition redis_lookup :: "Redis \<Rightarrow> string \<Rightarrow> redis_entry option" where
  "redis_lookup srv k =
     (case db srv k of
        None \<Rightarrow> None
      | Some e \<Rightarrow>
          (case expire e of
             None \<Rightarrow> Some e
           | Some w \<Rightarrow> if mstime srv > w then None else Some e))"

definition redis_GET :: "Redis \<Rightarrow> string \<Rightarrow> Token option" where
  "redis_GET srv k = map_option blob (redis_lookup srv k)"

definition redis_PTTL :: "Redis \<Rightarrow> string \<Rightarrow> int" where
  "redis_PTTL srv k =
     (case redis_lookup srv k of
        None \<Rightarrow> - 2
      | Some e \<Rightarrow> (case expire e of None \<Rightarrow> - 1 | Some w \<Rightarrow> max 0 (w - mstime srv)))"

definition redis_SET :: "Redis \<Rightarrow> string \<Rightarrow> Token \<Rightarrow> Redis" where
  "redis_SET srv k v = srv\<lparr>db := (db srv)(k \<mapsto> \<lparr>blob = v, expire = None\<rparr>)\<rparr>"

definition redis_SET_PX :: "Redis \<Rightarrow> string \<Rightarrow> Token \<Rightarrow> int \<Rightarrow> Redis" where
  "redis_SET_PX srv k v ms = srv\<lparr>db := (db srv)(k \<mapsto> \<lparr>blob = v, expire = Some (mstime srv + ms)\<rparr>)\<rparr>"

text \<open>The script of \<open>RedisStore.MarkUsed\<close>, run by the server as one unit.\<close>

definition markUsedScript :: "Redis \<Rightarrow> string \<Rightarrow> int \<times> Redis" where
  "markUsedScript srv k =
     (case redis_GET srv k of
        None \<Rightarrow> (0, srv)
      | Some obj \<Rightarrow>
          if Used obj then (- 1, srv)
          else
            (let obj' = obj\<lparr>Used := True\<rparr>;
                 ttl = redis_PTTL srv k
             in if ttl > 0 then (1, redis_SET_PX srv k obj' ttl) else (1, redis_SET srv k obj')))"

definition connError :: error where
  "connError = ErrOther ''redis: connection failed''"

record RedisStore =
  keyPrefix :: string

definition NewRedisStore :: "string \<Rightarrow> RedisStore" where
  "NewRedisStore prefix = \<lparr>keyPrefix = (if prefix = [] then ''qr-token:'' else prefix)\<rparr>"

definition RedisStore_key :: "RedisStore \<Rightarrow> uuid \<Rightarrow> string" where
  "RedisStore_key s tid = keyPrefix s @ uuid_String tid"

text \<open>
  \<open>client.Set(ctx, key, raw, ttl)\<close> of the client library: a positive \<open>ttl\<close> is sent as
  \<open>PX\<close> milliseconds when it is below a second or not a whole number of seconds (at
  least 1 millisecond) and as \<open>EX\<close> seconds otherwise; -1 keeps the expiry the key has;
  any other \<open>ttl\<close> sets none.
\<close>

definition RedisStore_Save :: "RedisStore \<Rightarrow> Redis \<Rightarrow> Token \<Rightarrow> Duration \<Rightarrow> error option \<times> Redis" where
  "RedisStore_Save s srv t ttl =
     (if \<not> online srv then (Some connError, srv)
      else if ttl > 0 then
        (if ttl < Second \<or> ttl mod Second \<noteq> 0
         then (None, redis_SET_PX srv (RedisStore_key s (ID t)) t
                       (if ttl < Millisecond then 1 else ttl div Millisecond))
         else (None, redis_SET_PX srv (RedisStore_key s (ID t)) t (1000 * (ttl div Second))))
      else if ttl = - 1 then
        (None, srv\<lparr>db := (db srv)(RedisStore_key s (ID t) \<mapsto>
                  \<lparr>blob = t, expire = (case redis_lookup srv (RedisStore_key s (ID t)) of
                                         None \<Rightarrow> None | Some e \<Rightarrow> expire e)\<rparr>)\<rparr>)
      else (None, redis_SET srv (RedisStore_key s (ID t)) t))"

definition RedisStore_Get :: "RedisStore \<Rightarrow> Redis \<Rightarrow> uuid \<Rightarrow> (error + Token) \<times> Redis" where
  "RedisStore_Get s srv tid =
     (if \<not> online srv then (Inl connError, srv)
      else (case redis_GET srv (RedisStore_key s tid) of
              None \<Rightarrow> (Inl ErrNotFound, srv)
            | Some t \<Rightarrow> (Inr t, srv)))"

definition RedisStore_MarkUsed :: "RedisStore \<Rightarrow> Redis \<Rightarrow> uuid \<Rightarrow> error option \<times> Redis" where
  "RedisStore_MarkUsed s srv tid =
     (if \<not> online srv then (Some connError, srv)
      else (case markUsedScript srv (RedisStore_key s tid) of
              (res, srv') \<Rightarrow>
                if res = 0 then (Some ErrNotFound, srv')
                else if res = - 1 then (Some ErrUsed, srv')
                else (None, srv')))"

definition redisStore :: "RedisStore \<Rightarrow> Redis Store" where
  "redisStore s = \<lparr>Save = RedisStore_Save s, Get = RedisStore_Get s, MarkUsed = RedisStore_MarkUsed s\<rparr>"

section \<open>Base64, URL alphabet, no padding\<close>

text \<open>
  \<open>base64.RawURLEncoding\<close>. Encoding takes three bytes to four characters of the
  alphabet and a last group of one or two bytes to two or three characters. Decoding
  skips every carriage return and line feed, rejects any other byte outside the
  alphabet and a last group of a single character, and does not look at the unused low
  bits of a last group.
\<close>

definition encodeURL :: string where
  "encodeURL = ''ABCDEFGHIJKLMNOPQRSTUVWXYZabcdefghijklmnopqrstuvwxyz0123456789-_''"

fun EncodeToString :: "string \<Rightarrow> string" where
  "EncodeToString (a # b # c # rest) =
     (let v = (of_char a :: nat) * 65536 + of_char b * 256 + of_char c
      in encodeURL ! (v div 262144 mod 64) # encodeURL ! (v div 4096 mod 64) #
         encodeURL ! (v div 64 mod 64) # encodeURL ! (v mod 64) # EncodeToString rest)"
| "EncodeToString [a, b] =
     (let v = (of_char a :: nat) * 65536 + of_char b * 256
      in [encodeURL ! (v div 262144 mod 64), encodeURL ! (v div 4096 mod 64),
          encodeURL ! (v div 64 mod 64)])"
| "EncodeToString [a] =
     (let v = (of_char a :: nat) * 65536
      in [encodeURL ! (v div 262144 mod 64), encodeURL ! (v div 4096 mod 64)])"
| "EncodeToString [] = []"

definition decodeMap :: "char \<Rightarrow> nat option" where
  "decodeMap c =
     (let n = (of_char c :: nat) in
      if 65 \<le> n \<and> n \<le> 90 then Some (n - 65)
      else if 97 \<le> n \<and> n \<le> 122 then Some (n - 71)
      else if 48 \<le> n \<and> n \<le> 57 then Some (n + 4)
      else if n = 45 then Some 62
      else if n = 95 then Some 63
      else None)"

fun decodeQuanta :: "nat list \<Rightarrow> string option" where
  "decodeQuanta (a # b # c # d # rest) =
     (let v = a * 262144 + b * 4096 + c * 64 + d
      in map_option (\<lambda>r. char_of (v div 65536) # char_of (v div 256) # char_of v # r)
           (decodeQuanta rest))"
| "decodeQuanta [a, b, c] =
     (let v = a * 262144 + b * 4096 + c * 64
      in Some [char_of (v div 65536), char_of (v div 256)])"
| "decodeQuanta [a, b] = (let v = a * 262144 + b * 4096 in Some [char_of (v div 65536)])"
| "decodeQuanta [a] = None"
| "decodeQuanta [] = Some []"

definition DecodeString :: "string \<Rightarrow> string option" where
  "DecodeString s =
     (case those (map decodeMap (filter (\<lambda>c. c \<noteq> CHR 0x0D \<and> c \<noteq> CHR 0x0A) s)) of
        None \<Rightarrow> None
      | Some ds \<Rightarrow> decodeQuanta ds)"

section \<open>Signer\<close>

text \<open>
  \<open>hmac.New(sha256.New, secret)\<close>, \<open>Write\<close> and \<open>Sum\<close> compute HMAC-SHA-256 of the
  message under the key. The function is a parameter \<open>H\<close> (key first) of everything
  that signs: nothing below depends on which function it is. \<open>hmac.Equal\<close> is equality
  of the two byte strings.
\<close>

type_synonym mac = "string \<Rightarrow> string \<Rightarrow> string"

record Signer =
  secret :: string

definition NewSigner :: "string \<Rightarrow> Signer" where
  "NewSigner k = \<lparr>secret = k\<rparr>"

definition Signer_Sign :: "mac \<Rightarrow> Signer \<Rightarrow> string \<Rightarrow> string" where
  "Signer_Sign H s idBytes = EncodeToString (H (secret s) idBytes)"

definition Signer_Verify :: "mac \<Rightarrow> Signer \<Rightarrow> string \<Rightarrow> string \<Rightarrow> bool" where
  "Signer_Verify H s idBytes signature = (Signer_Sign H s idBytes = signature)"

section \<open>UTF-8\<close>

text \<open>
  \<open>utf8.DecodeRune\<close> gives the code point at the head of a byte string and the number
  of bytes it takes; for bytes that are not a well-formed encoding (an overlong form, a
  surrogate, a value above U+10FFFF, a missing continuation byte) it gives
  \<open>RuneError\<close> (U+FFFD) and the width 1. \<open>utf8.EncodeRune\<close> writes a code point, and
  U+FFFD for a surrogate or a value out of range.
\<close>

definition RuneError :: nat where
  "RuneError = 65533"

definition inRange :: "nat \<Rightarrow> nat \<Rightarrow> char \<Rightarrow> bool" where
  "inRange lo hi c = (lo \<le> of_char c \<and> of_char c \<le> hi)"

definition DecodeRune :: "string \<Rightarrow> nat \<times> nat" where
  "DecodeRune p =
     (case p of
        [] \<Rightarrow> (RuneError, 0)
      | c # cs \<Rightarrow>
          (let b0 = (of_char c :: nat) in
           if b0 < 128 then (b0, 1)
           else if 194 \<le> b0 \<and> b0 \<le> 223 then
             (case cs of
                b1 # _ \<Rightarrow>
                  if inRange 128 191 b1 then ((b0 - 192) * 64 + (of_char b1 - 128), 2)
                  else (RuneError, 1)
              | _ \<Rightarrow> (RuneError, 1))
           else if 224 \<le> b0 \<and> b0 \<le> 239 then
             (case cs of
                b1 # b2 # _ \<Rightarrow>
                  if inRange (if b0 = 224 then 160 else 128) (if b0 = 237 then 159 else 191) b1
                     \<and> inRange 128 191 b2
                  then ((b0 - 224) * 4096 + (of_char b1 - 128) * 64 + (of_char b2 - 128), 3)
                  else (RuneError, 1)
              | _ \<Rightarrow> (RuneError, 1))
           else if 240 \<le> b0 \<and> b0 \<le> 244 then
             (case cs of
                b1 # b2 # b3 # _ \<Rightarrow>
                  if inRange (if b0 = 240 then 144 else 128) (if b0 = 244 then 143 else 191) b1
                     \<and> inRange 128 191 b2 \<and> inRange 128 191 b3
                  then ((b0 - 240) * 262144 + (of_char b1 - 128) * 4096 +
                        (of_char b2 - 128) * 64 + (of_char b3 - 128), 4)
                  else (RuneError, 1)
              | _ \<Rightarrow> (RuneError, 1))
           else (RuneError, 1)))"

definition EncodeRune :: "nat \<Rightarrow> string" where
  "EncodeRune r =
     (if r \<le> 127 then [char_of r]
      else if r \<le> 2047 then [char_of (192 + r div 64), char_of (128 + r mod 64)]
      else if r > 1114111 \<or> (55296 \<le> r \<and> r \<le> 57343) then [CHR 0xEF, CHR 0xBF, CHR 0xBD]
      else if r \<le> 65535 then
        [char_of (224 + r div 4096), char_of (128 + r div 64 mod 64), char_of (128 + r mod 64)]
      else
        [char_of (240 + r div 262144), char_of (128 + r div 4096 mod 64),
         char_of (128 + r div 64 mod 64), char_of (128 + r mod 64)])"

text \<open>\<open>utf8.ValidString\<close>: every byte belongs to a well-formed sequence.\<close>

fun validUTF8 :: "string \<Rightarrow> bool" where
  "validUTF8 [] = True"
| "validUTF8 (c # cs) =
     (if (of_char c :: nat) < 128 then validUTF8 cs
      else (case DecodeRune (c # cs) of
              (r, n) \<Rightarrow> \<not> (r = RuneError \<and> n = 1) \<and> validUTF8 (drop (n - 1) cs)))"

section \<open>JSON text of a payload\<close>

text \<open>
  \<open>json.Marshal\<close> of a \<open>payload\<close> writes the object with the members \<open>id\<close> and \<open>sig\<close>
  in this order, each string by the encoder's \<open>appendString\<close> with HTML escaping on:
  bytes from 0x20 to 0x7F other than the quote, the backslash, \<open><\<close>, \<open>>\<close> and \<open>&\<close> stand
  for themselves; quote and backslash take a backslash; backspace, form feed, line feed,
  carriage return and tab are backslash with \<open>b f n r t\<close>; any other byte below 0x80 is
  backslash, \<open>u00\<close> and its two hexadecimal digits; a byte that starts no well-formed
  UTF-8 sequence is written as the escape of U+FFFD (backslash, \<open>ufffd\<close>); U+2028 and
  U+2029 are written as their escapes; every other well-formed
  sequence is copied.
\<close>

record payload =
  payload_ID :: string
  payload_Sig :: string

definition htmlSafe :: "char \<Rightarrow> bool" where
  "htmlSafe c =
     (32 \<le> (of_char c :: nat) \<and> (of_char c :: nat) < 128 \<and> c \<noteq> CHR 0x22 \<and> c \<noteq> CHR 0x5C \<and>
      c \<noteq> CHR ''<'' \<and> c \<noteq> CHR ''>'' \<and> c \<noteq> CHR ''&'')"

definition escapeByte :: "char \<Rightarrow> string" where
  "escapeByte c =
     (if c = CHR 0x5C \<or> c = CHR 0x22 then [CHR 0x5C, c]
      else if c = CHR 0x08 then [CHR 0x5C, CHR ''b'']
      else if c = CHR 0x0C then [CHR 0x5C, CHR ''f'']
      else if c = CHR 0x0A then [CHR 0x5C, CHR ''n'']
      else if c = CHR 0x0D then [CHR 0x5C, CHR ''r'']
      else if c = CHR 0x09 then [CHR 0x5C, CHR ''t'']
      else [CHR 0x5C, CHR ''u'', CHR ''0'', CHR ''0'',
            hexdigit (of_char c div 16), hexdigit (of_char c mod 16)])"

fun appendBody :: "string \<Rightarrow> string" where
  "appendBody [] = []"
| "appendBody (c # cs) =
     (if (of_char c :: nat) < 128 then
        (if htmlSafe c then c # appendBody cs else escapeByte c @ appendBody cs)
      else
        (case DecodeRune (c # cs) of
           (r, n) \<Rightarrow>
             if r = RuneError \<and> n = 1 then
               [CHR 0x5C, CHR ''u'', CHR ''f'', CHR ''f'', CHR ''f'', CHR ''d''] @ appendBody cs
             else if r = 8232 \<or> r = 8233 then
               [CHR 0x5C, CHR ''u'', CHR ''2'', CHR ''0'', CHR ''2'', hexdigit (r mod 16)] @
               appendBody (drop (n - 1) cs)
             else take n (c # cs) @ appendBody (drop (n - 1) cs)))"

definition appendString :: "string \<Rightarrow> string" where
  "appendString src = CHR 0x22 # appendBody src @ [CHR 0x22]"

definition Marshal :: "payload \<Rightarrow> string" where
  "Marshal d =
     ''{'' @ appendString ''id'' @ '':'' @ appendString (payload_ID d) @ '','' @
     appendString ''sig'' @ '':'' @ appendString (payload_Sig d) @ ''}''"

section \<open>Reading JSON text into a payload\<close>

text \<open>
  \<open>json.Unmarshal(raw, &data)\<close> for a \<open>payload\<close>. It first checks that the bytes are
  one JSON value (\<open>checkValid\<close>, the scanner), then decodes that value into the struct.
  Here the bytes are cut into tokens first; a string token holds the bytes the decoder's
  \<open>unquote\<close> gives for the literal: escapes resolved, a surrogate pair of escapes joined,
  a lone surrogate and every byte that is not well-formed UTF-8 replaced by U+FFFD.
\<close>

datatype token =
    BeginObject | EndObject | BeginArray | EndArray | Colon | Comma
  | Str string | Num | LitTrue | LitFalse | LitNull

definition hex4 :: "char \<Rightarrow> char \<Rightarrow> char \<Rightarrow> char \<Rightarrow> nat option" where
  "hex4 a b c d =
     (case xvalue a of
        None \<Rightarrow> None
      | Some x3 \<Rightarrow>
          (case xvalue b of
             None \<Rightarrow> None
           | Some x2 \<Rightarrow>
               (case xvalue c of
                  None \<Rightarrow> None
                | Some x1 \<Rightarrow>
                    (case xvalue d of
                       None \<Rightarrow> None
                     | Some x0 \<Rightarrow> Some (((x3 * 16 + x2) * 16 + x1) * 16 + x0)))))"

definition getu4 :: "string \<Rightarrow> nat option" where
  "getu4 s =
     (case s of
        bs # u # a # b # c # d # _ \<Rightarrow>
          if bs = CHR 0x5C \<and> u = CHR ''u'' then hex4 a b c d else None
      | _ \<Rightarrow> None)"

definition unquoteEscape :: "string \<Rightarrow> (string \<times> nat) option" where
  "unquoteEscape s =
     (case s of
        bs # e # _ \<Rightarrow>
          if e = CHR 0x22 \<or> e = CHR 0x5C \<or> e = CHR ''/'' then Some ([e], 2)
          else if e = CHR ''b'' then Some ([CHR 0x08], 2)
          else if e = CHR ''f'' then Some ([CHR 0x0C], 2)
          else if e = CHR ''n'' then Some ([CHR 0x0A], 2)
          else if e = CHR ''r'' then Some ([CHR 0x0D], 2)
          else if e = CHR ''t'' then Some ([CHR 0x09], 2)
          else if e = CHR ''u'' then
            (case getu4 s of
               None \<Rightarrow> None
             | Some rr \<Rightarrow>
                 if 55296 \<le> rr \<and> rr < 57344 then
                   (case getu4 (drop 6 s) of
                      None \<Rightarrow> Some (EncodeRune RuneError, 6)
                    | Some rr1 \<Rightarrow>
                        if rr < 56320 \<and> 56320 \<le> rr1 \<and> rr1 < 57344
                        then Some (EncodeRune ((rr - 55296) * 1024 + (rr1 - 56320) + 65536), 12)
                        else Some (EncodeRune RuneError, 6))
                 else Some (EncodeRune rr, 6))
          else None
      | _ \<Rightarrow> None)"

definition unquoteStep :: "string \<Rightarrow> (string \<times> nat) option" where
  "unquoteStep s =
     (case s of
        [] \<Rightarrow> None
      | c # _ \<Rightarrow>
          if c = CHR 0x5C then unquoteEscape s
          else if c = CHR 0x22 \<or> (of_char c :: nat) < 32 then None
          else if (of_char c :: nat) < 128 then Some ([c], 1)
          else (case DecodeRune s of (rr, n) \<Rightarrow> Some (EncodeRune rr, n)))"

definition emit :: "string \<Rightarrow> (string \<times> string) option \<Rightarrow> (string \<times> string) option" where
  "emit out r = map_option (\<lambda>(t, rest). (out @ t, rest)) r"

fun lexString :: "string \<Rightarrow> (string \<times> string) option" where
  "lexString [] = None"
| "lexString (c # cs) =
     (if c = CHR 0x22 then Some ([], cs)
      else (case unquoteStep (c # cs) of
              None \<Rightarrow> None
            | Some (out, n) \<Rightarrow> emit out (lexString (drop (n - 1) cs))))"

definition isDigit :: "char \<Rightarrow> bool" where
  "isDigit c = (48 \<le> (of_char c :: nat) \<and> (of_char c :: nat) \<le> 57)"

definition lexExp :: "string \<Rightarrow> string option" where
  "lexExp s =
     (case s of
        [] \<Rightarrow> Some []
      | c # cs \<Rightarrow>
          if c = CHR ''e'' \<or> c = CHR ''E'' then
            (case (case cs of [] \<Rightarrow> [] | g # r \<Rightarrow> if g = CHR ''+'' \<or> g = CHR ''-'' then r else cs) of
               [] \<Rightarrow> None
             | d # ds \<Rightarrow> if isDigit d then Some (dropWhile isDigit ds) else None)
          else Some s)"

definition lexFrac :: "string \<Rightarrow> string option" where
  "lexFrac s =
     (case s of
        [] \<Rightarrow> Some []
      | c # cs \<Rightarrow>
          if c = CHR ''.'' then
            (case cs of
               [] \<Rightarrow> None
             | d # ds \<Rightarrow> if isDigit d then lexExp (dropWhile isDigit ds) else None)
          else lexExp s)"

definition lexNumber :: "string \<Rightarrow> string option" where
  "lexNumber s =
     (case (case s of [] \<Rightarrow> [] | g # r \<Rightarrow> if g = CHR ''-'' then r else s) of
        [] \<Rightarrow> None
      | c # cs \<Rightarrow>
          if c = CHR ''0'' then lexFrac cs
          else if isDigit c then lexFrac (dropWhile isDigit cs)
          else None)"

definition isSpace :: "char \<Rightarrow> bool" where
  "isSpace c = (c = CHR '' '' \<or> c = CHR 0x09 \<or> c = CHR 0x0D \<or> c = CHR 0x0A)"

lemma lexString_length: "lexString s = Some (t, rest) \<Longrightarrow> length rest < length s"
proof (induction s arbitrary: t rule: lexString.induct)
  case 1
  then show ?case by simp
next
  case (2 c cs)
  show ?case
  proof (cases "c = CHR 0x22")
    case True
    with "2.prems" show ?thesis by simp
  next
    case False
    with "2.prems" obtain out n t' where
      st: "unquoteStep (c # cs) = Some (out, n)" and
      rec: "lexString (drop (n - 1) cs) = Some (t', rest)"
      by (auto simp: emit_def split: option.splits)
    from "2.IH"[OF False st refl rec] have "length rest < length (drop (n - 1) cs)" .
    then show ?thesis by simp
  qed
qed

lemma length_dropWhile_le': "length (dropWhile P xs) \<le> length xs"
  by (induction xs) auto

lemma lexExp_length: "lexExp s = Some rest \<Longrightarrow> length rest \<le> length s"
  using length_dropWhile_le'[of isDigit]
  by (auto simp: lexExp_def le_SucI split: list.splits if_splits)

lemma lexFrac_length: "lexFrac s = Some rest \<Longrightarrow> length rest \<le> length s"
  using length_dropWhile_le'[of isDigit]
  by (auto simp: lexFrac_def le_SucI split: list.splits if_splits dest!: lexExp_length
      intro: order_trans)

lemma lexNumber_length: "lexNumber s = Some rest \<Longrightarrow> length rest < length s"
  using length_dropWhile_le'[of isDigit]
  by (auto simp: lexNumber_def less_Suc_eq_le le_SucI split: list.splits if_splits dest!: lexFrac_length
      intro: order_trans)


function lex :: "string \<Rightarrow> token list option" where
  "lex [] = Some []"
| "lex (c # cs) =
     (if isSpace c then lex cs
      else if c = CHR ''{'' then map_option ((#) BeginObject) (lex cs)
      else if c = CHR ''}'' then map_option ((#) EndObject) (lex cs)
      else if c = CHR ''['' then map_option ((#) BeginArray) (lex cs)
      else if c = CHR '']'' then map_option ((#) EndArray) (lex cs)
      else if c = CHR '':'' then map_option ((#) Colon) (lex cs)
      else if c = CHR '','' then map_option ((#) Comma) (lex cs)
      else if c = CHR 0x22 then
        (case lexString cs of
           None \<Rightarrow> None
         | Some (t, rest) \<Rightarrow> map_option ((#) (Str t)) (lex rest))
      else if c = CHR ''-'' \<or> isDigit c then
        (case lexNumber (c # cs) of
           None \<Rightarrow> None
         | Some rest \<Rightarrow> map_option ((#) Num) (lex rest))
      else if take 4 (c # cs) = ''true'' then map_option ((#) LitTrue) (lex (drop 3 cs))
      else if take 5 (c # cs) = ''false'' then map_option ((#) LitFalse) (lex (drop 4 cs))
      else if take 4 (c # cs) = ''null'' then map_option ((#) LitNull) (lex (drop 3 cs))
      else None)"
  by pat_completeness auto
termination
proof (relation "measure length")
  show "wf (measure length)" by simp
next
  fix c cs x2 x y
  assume "lexString cs = Some x2" "(x, y) = x2"
  then have "lexString cs = Some (x, y)" by simp
  from lexString_length[OF this] show "(y, c # cs) \<in> measure length" by simp
next
  fix c cs x2
  assume "lexNumber (c # cs) = Some x2"
  from lexNumber_length[OF this] show "(x2, c # cs) \<in> measure length" by simp
qed simp_all

datatype parseState = parseObjectKey | parseObjectValue | parseArrayValue

datatype step =
    stateBeginValue | stateBeginValueOrEmpty | stateBeginStringOrEmpty | stateBeginString
  | stateEndValue | stateEndTop

definition maxNestingDepth :: nat where
  "maxNestingDepth = 10000"

definition isScalar :: "token \<Rightarrow> bool" where
  "isScalar t = (case t of Str _ \<Rightarrow> True | Num \<Rightarrow> True | LitTrue \<Rightarrow> True | LitFalse \<Rightarrow> True
                 | LitNull \<Rightarrow> True | _ \<Rightarrow> False)"

definition endOf :: "parseState list \<Rightarrow> step" where
  "endOf ps = (if ps = [] then stateEndTop else stateEndValue)"

text \<open>One token of input: the next state and stack, or \<open>None\<close> for a syntax error.\<close>

definition scanStep :: "step \<Rightarrow> parseState list \<Rightarrow> token \<Rightarrow> (step \<times> parseState list) option" where
  "scanStep st ps t =
     (if st = stateEndTop then None
      else if st = stateEndValue then
        (case ps of
           [] \<Rightarrow> None
         | p # ps' \<Rightarrow>
             if p = parseObjectKey then
               (if t = Colon then Some (stateBeginValue, parseObjectValue # ps') else None)
             else if p = parseObjectValue then
               (if t = Comma then Some (stateBeginString, parseObjectKey # ps')
                else if t = EndObject then Some (endOf ps', ps')
                else None)
             else
               (if t = Comma then Some (stateBeginValue, ps)
                else if t = EndArray then Some (endOf ps', ps')
                else None))
      else if st = stateBeginStringOrEmpty \<and> t = EndObject then Some (endOf (tl ps), tl ps)
      else if st = stateBeginStringOrEmpty \<or> st = stateBeginString then
        (case t of Str _ \<Rightarrow> Some (stateEndValue, ps) | _ \<Rightarrow> None)
      else if st = stateBeginValueOrEmpty \<and> t = EndArray then Some (endOf (tl ps), tl ps)
      else if t = BeginObject then
        (if length ps < maxNestingDepth then Some (stateBeginStringOrEmpty, parseObjectKey # ps)
         else None)
      else if t = BeginArray then
        (if length ps < maxNestingDepth then Some (stateBeginValueOrEmpty, parseArrayValue # ps)
         else None)
      else if isScalar t then Some (endOf ps, ps)
      else None)"

fun scan :: "step \<Rightarrow> parseState list \<Rightarrow> token list \<Rightarrow> bool" where
  "scan st ps [] = (st = stateEndTop)"
| "scan st ps (t # ts) =
     (case scanStep st ps t of None \<Rightarrow> False | Some (st', ps') \<Rightarrow> scan st' ps' ts)"

definition checkValid :: "token list \<Rightarrow> bool" where
  "checkValid ts = scan stateBeginValue [] ts"


text \<open>
  Decoding an object into the struct: a key selects the field whose name it equals, or
  else the field whose name it equals after folding case (upper case for the ASCII
  letters; of the other code points only U+017F and U+212A fold to an ASCII letter, S and
  K, and \<open>foldRune\<close> leaves the rest as they are, which no comparison with \<open>ID\<close> or
  \<open>SIG\<close> can tell). A string value is stored in the field, \<open>null\<close> leaves it, and a
  value of any other kind is a type error that is kept while decoding goes on; a value
  under any other key is skipped. \<open>Unmarshal\<close> returns the kept error at the end, and
  \<open>DecodePayload\<close> looks at nothing but the error, so the result is \<open>None\<close> for an error.
  At the top, an object is decoded, \<open>null\<close> changes nothing, and any other value is a
  type error.
\<close>

definition foldRune :: "nat \<Rightarrow> nat" where
  "foldRune r = (if r = 383 then 83 else if r = 8490 then 75 else r)"

fun foldName :: "string \<Rightarrow> string" where
  "foldName [] = []"
| "foldName (c # cs) =
     (if (of_char c :: nat) < 128 then
        (if 97 \<le> (of_char c :: nat) \<and> (of_char c :: nat) \<le> 122
         then char_of ((of_char c :: nat) - 32) else c) # foldName cs
      else (case DecodeRune (c # cs) of
              (r, n) \<Rightarrow> EncodeRune (foldRune r) @ foldName (drop (n - 1) cs)))"

datatype field = FieldID | FieldSig

definition fieldByName :: "string \<Rightarrow> field option" where
  "fieldByName key =
     (if key = ''id'' then Some FieldID
      else if key = ''sig'' then Some FieldSig
      else if foldName key = ''ID'' then Some FieldID
      else if foldName key = ''SIG'' then Some FieldSig
      else None)"

record decodeState =
  data :: payload
  savedError :: bool

definition setField :: "field \<Rightarrow> string \<Rightarrow> payload \<Rightarrow> payload" where
  "setField f v p = (case f of FieldID \<Rightarrow> p\<lparr>payload_ID := v\<rparr> | FieldSig \<Rightarrow> p\<lparr>payload_Sig := v\<rparr>)"

definition literalStore :: "field option \<Rightarrow> token \<Rightarrow> decodeState \<Rightarrow> decodeState" where
  "literalStore f v d =
     (case f of
        None \<Rightarrow> d
      | Some fld \<Rightarrow>
          (case v of
             Str t \<Rightarrow> d\<lparr>data := setField fld t (data d)\<rparr>
           | LitNull \<Rightarrow> d
           | _ \<Rightarrow> d\<lparr>savedError := True\<rparr>))"

fun skip :: "nat \<Rightarrow> token list \<Rightarrow> token list" where
  "skip n [] = []"
| "skip n (t # ts) =
     (if t = BeginObject \<or> t = BeginArray then skip (Suc n) ts
      else if t = EndObject \<or> t = EndArray then (if n \<le> 1 then ts else skip (n - 1) ts)
      else if n = 0 then ts
      else skip n ts)"

lemma skip_length: "length (skip n ts) \<le> length ts"
  by (induction n ts rule: skip.induct) auto

function object :: "decodeState \<Rightarrow> token list \<Rightarrow> decodeState" where
  "object d ts =
     (case ts of
        Str key # Colon # v # rest \<Rightarrow>
          (case skip 0 (v # rest) of
             Comma # ms \<Rightarrow> object (literalStore (fieldByName key) v d) ms
           | _ \<Rightarrow> literalStore (fieldByName key) v d)
      | _ \<Rightarrow> d)"
  by pat_completeness auto
termination
proof (relation "measure (\<lambda>(d, ts). length ts)")
  show "wf (measure (\<lambda>(d, ts). length ts))" by simp
next
  fix d :: decodeState and ts :: "token list" and x21 x22 x1 x21a x22a x21b x22b x21c x22c
  assume "ts = x21 # x22" "x21 = Str x1" "x22 = x21a # x22a" "x21a = Colon"
    "x22a = x21b # x22b" "skip 0 (x21b # x22b) = x21c # x22c" "x21c = Comma"
  then have "length (Comma # x22c) \<le> length (x21b # x22b)"
    using skip_length[of 0 "x21b # x22b"] by simp
  with \<open>ts = x21 # x22\<close> \<open>x22 = x21a # x22a\<close> \<open>x22a = x21b # x22b\<close>
  show "((literalStore (fieldByName x1) x21b d, x22c), d, ts) \<in> measure (\<lambda>(d, ts). length ts)"
    by simp
qed

declare object.simps [simp del]

definition Unmarshal :: "string \<Rightarrow> payload option" where
  "Unmarshal raw =
     (case lex raw of
        None \<Rightarrow> None
      | Some ts \<Rightarrow>
          if \<not> checkValid ts then None
          else
            (case ts of
               BeginObject # members \<Rightarrow>
                 (let d = object \<lparr>data = \<lparr>payload_ID = [], payload_Sig = []\<rparr>, savedError = False\<rparr> members
                  in if savedError d then None else Some (data d))
             | LitNull # _ \<Rightarrow> Some \<lparr>payload_ID = [], payload_Sig = []\<rparr>
             | _ \<Rightarrow> None))"

definition EncodePayload :: "string \<Rightarrow> string \<Rightarrow> error + string" where
  "EncodePayload tid signature =
     Inr (EncodeToString (Marshal \<lparr>payload_ID = tid, payload_Sig = signature\<rparr>))"

definition DecodePayload :: "string \<Rightarrow> error + payload" where
  "DecodePayload encoded =
     (case DecodeString encoded of
        None \<Rightarrow> Inl ErrBadPayload
      | Some raw \<Rightarrow> (case Unmarshal raw of None \<Rightarrow> Inl ErrBadPayload | Some d \<Rightarrow> Inr d))"

section \<open>Rate limiter\<close>

text \<open>
  \<open>RateLimiter\<close> is an interface of one method. \<open>MemoryRateLimiter\<close> is the map
  \<open>users\<close>; \<open>CheckAndIncrement\<close> holds the mutex throughout and reads the system clock
  once: \<open>now\<close> is that reading.
\<close>

record 'r RateLimiter =
  CheckAndIncrement :: "'r \<Rightarrow> string \<Rightarrow> int \<Rightarrow> Duration \<Rightarrow> error option \<times> 'r"

record userLimit =
  count :: int
  windowEnd :: Time

type_synonym MemoryRateLimiter = "string \<rightharpoonup> userLimit"

definition NewMemoryRateLimiter :: MemoryRateLimiter where
  "NewMemoryRateLimiter = Map.empty"

definition MemoryRateLimiter_CheckAndIncrement ::
  "Time \<Rightarrow> MemoryRateLimiter \<Rightarrow> string \<Rightarrow> int \<Rightarrow> Duration \<Rightarrow> error option \<times> MemoryRateLimiter" where
  "MemoryRateLimiter_CheckAndIncrement now r userID limit window =
     (case r userID of
        None \<Rightarrow> (None, r(userID \<mapsto> \<lparr>count = 1, windowEnd = now + window\<rparr>))
      | Some ul \<Rightarrow>
          if now > windowEnd ul then (None, r(userID \<mapsto> \<lparr>count = 1, windowEnd = now + window\<rparr>))
          else if count ul \<ge> limit then (Some ErrRateLimitExceeded, r)
          else (None, r(userID \<mapsto> ul\<lparr>count := count ul + 1\<rparr>)))"

definition memoryRateLimiter :: "Time \<Rightarrow> MemoryRateLimiter RateLimiter" where
  "memoryRateLimiter now = \<lparr>CheckAndIncrement = MemoryRateLimiter_CheckAndIncrement now\<rparr>"

section \<open>Token manager\<close>

text \<open>
  The manager holds a store, the bounds of the time to live, and an optional rate
  limiter with its limit and window. Its clock \<open>m.now\<close> is read at most once in a call:
  the reading is the argument \<open>now\<close>. \<open>Generate\<close> draws the identifier from \<open>uuid.New\<close>:
  the argument \<open>newID\<close>. The state is the store's and the limiter's. \<open>checkRate\<close> is
  the guarded call of the limiter in \<open>Generate\<close> and \<open>clampTTL\<close> its two clamps of the
  time to live, in the order of the source.
\<close>

record ('s, 'r) Manager =
  store :: "'s Store"
  minTTL :: Duration
  maxTTL :: Duration
  rateLimiter :: "'r RateLimiter option"
  rateLimit :: int
  rateWindow :: Duration

definition checkRate :: "('s, 'r) Manager \<Rightarrow> 'r \<Rightarrow> string \<Rightarrow> error option \<times> 'r" where
  "checkRate m r userID =
     (case rateLimiter m of
        None \<Rightarrow> (None, r)
      | Some rl \<Rightarrow>
          if rateLimit m > 0 then CheckAndIncrement rl r userID (rateLimit m) (rateWindow m)
          else (None, r))"

definition clampTTL :: "('s, 'r) Manager \<Rightarrow> Duration \<Rightarrow> Duration" where
  "clampTTL m ttl =
     (let ttl1 = (if maxTTL m > 0 \<and> ttl > maxTTL m then maxTTL m else ttl)
      in if minTTL m > 0 \<and> ttl1 < minTTL m then minTTL m else ttl1)"

definition Generate ::
  "mac \<Rightarrow> ('s, 'r) Manager \<Rightarrow> Time \<Rightarrow> uuid \<Rightarrow> string \<Rightarrow> string \<Rightarrow> string \<Rightarrow> Duration \<Rightarrow>
   's \<times> 'r \<Rightarrow> (error + Token \<times> string) \<times> 's \<times> 'r" where
  "Generate H m now newID secretKey userID action ttl sr =
     (case sr of
        (s, r) \<Rightarrow>
          if secretKey = [] then (Inl (ErrOther ''secret key is required''), s, r)
          else if userID = [] \<or> action = [] then
            (Inl (ErrOther ''userID and action are required''), s, r)
          else if ttl \<le> 0 then (Inl (ErrOther ''ttl must be positive''), s, r)
          else
            (case checkRate m r userID of
               (Some err, r') \<Rightarrow> (Inl err, s, r')
             | (None, r') \<Rightarrow>
                 (let ttl' = clampTTL m ttl;
                      token = \<lparr>ID = newID, UserID = userID, Action = action,
                               ExpiresAt = now + ttl', Used = False\<rparr>
                  in case Save (store m) s token ttl' of
                       (Some err, s') \<Rightarrow> (Inl err, s', r')
                     | (None, s') \<Rightarrow>
                         (case EncodePayload (uuid_String newID)
                                 (Signer_Sign H (NewSigner secretKey) newID) of
                            Inl err \<Rightarrow> (Inl err, s', r')
                          | Inr p \<Rightarrow> (Inr (token, p), s', r')))))"

text \<open>
  \<open>Verify\<close> in two parts: everything up to the check of the fetched token's \<open>Used\<close>
  field, which reads the store once (\<open>Get\<close>), and the rest, which calls \<open>MarkUsed\<close>.
  Each store method is atomic, the sequence of the two is not: another call can run
  between the parts.
\<close>

definition Verify_check ::
  "mac \<Rightarrow> ('s, 'r) Manager \<Rightarrow> Time \<Rightarrow> string \<Rightarrow> string \<Rightarrow> 's \<Rightarrow> (error + uuid \<times> Token) \<times> 's" where
  "Verify_check H m now secretKey encoded s =
     (if secretKey = [] then (Inl (ErrOther ''secret key is required''), s)
      else
        (case DecodePayload encoded of
           Inl err \<Rightarrow> (Inl err, s)
         | Inr d \<Rightarrow>
             (case uuid_Parse (payload_ID d) of
                None \<Rightarrow> (Inl ErrBadPayload, s)
              | Some tokenID \<Rightarrow>
                  if \<not> Signer_Verify H (NewSigner secretKey) tokenID (payload_Sig d)
                  then (Inl ErrBadSignature, s)
                  else
                    (case Get (store m) s tokenID of
                       (Inl err, s') \<Rightarrow> (Inl err, s')
                     | (Inr token, s') \<Rightarrow>
                         if ExpiresAt token < now then (Inl ErrExpired, s')
                         else if Used token then (Inl ErrUsed, s')
                         else (Inr (tokenID, token), s')))))"

definition Verify_mark :: "('s, 'r) Manager \<Rightarrow> uuid \<Rightarrow> Token \<Rightarrow> 's \<Rightarrow> (error + Token) \<times> 's" where
  "Verify_mark m tokenID token s =
     (case MarkUsed (store m) s tokenID of
        (Some err, s') \<Rightarrow> (Inl err, s')
      | (None, s') \<Rightarrow> (Inr (token\<lparr>Used := True\<rparr>), s'))"

definition Verify ::
  "mac \<Rightarrow> ('s, 'r) Manager \<Rightarrow> Time \<Rightarrow> string \<Rightarrow> string \<Rightarrow> 's \<Rightarrow> (error + Token) \<times> 's" where
  "Verify H m now secretKey encoded s =
     (case Verify_check H m now secretKey encoded s of
        (Inl err, s') \<Rightarrow> (Inl err, s')
      | (Inr (tokenID, token), s') \<Rightarrow> Verify_mark m tokenID token s')"

section \<open>Notions and values used in the statements\<close>

text \<open>The 6-bit values that \<open>DecodeString\<close> reads from its input.\<close>

definition sextets :: "string \<Rightarrow> nat list option" where
  "sextets s = those (map decodeMap (filter (\<lambda>c. c \<noteq> CHR 0x0D \<and> c \<noteq> CHR 0x0A) s))"

text \<open>Strings of bytes below 0x80.\<close>

definition isASCII :: "string \<Rightarrow> bool" where
  "isASCII s = list_all (\<lambda>c. (of_char c :: nat) < 128) s"

text \<open>The payload \<open>Generate\<close> returns for the identifier \<open>tid\<close> under the secret \<open>k\<close>.\<close>

definition signedPayload :: "mac \<Rightarrow> string \<Rightarrow> uuid \<Rightarrow> string" where
  "signedPayload H k tid =
     EncodeToString (Marshal \<lparr>payload_ID = uuid_String tid,
                              payload_Sig = Signer_Sign H (NewSigner k) tid\<rparr>)"

text \<open>Values for the examples: a stand-in for HMAC-SHA-256 (every example holds for any
  function in its place), an identifier, and a manager over the in-memory store with no
  bounds on the time to live and no rate limiter.\<close>

definition exampleMac :: mac where
  "exampleMac k msg = k @ msg"

definition exampleID :: uuid where
  "exampleID = ''0123456789abcdef''"

definition exampleManager :: "(MemoryStore, unit) Manager" where
  "exampleManager = \<lparr>store = memoryStore, minTTL = 0, maxTTL = 0, rateLimiter = None,
                      rateLimit = 0, rateWindow = 0\<rparr>"

definition exampleToken :: "Time \<Rightarrow> bool \<Rightarrow> Token" where
  "exampleToken e u = \<lparr>ID = exampleID, UserID = ''u1'', Action = ''login'', ExpiresAt = e, Used = u\<rparr>"

text \<open>A payload for the example identifier with the signature \<open>x\<close>, which no secret gives.\<close>

definition forgedPayload :: string where
  "forgedPayload =
     ''eyJpZCI6IjMwMzEzMjMzLTM0MzUtMzYzNy0zODM5LTYxNjI2MzY0NjU2NiIsInNpZyI6IngifQ''"

text \<open>The example manager with bounds on the time to live.\<close>

definition clampManager :: "Duration \<Rightarrow> Duration \<Rightarrow> (MemoryStore, unit) Manager" where
  "clampManager lo hi = exampleManager\<lparr>minTTL := lo, maxTTL := hi\<rparr>"

text \<open>
  A manager with the in-memory rate limiter, in a call during which the system clock
  reads \<open>t\<close>; and whether a result is a success.
\<close>

definition withLimiter :: "('s, MemoryRateLimiter) Manager \<Rightarrow> Time \<Rightarrow> ('s, MemoryRateLimiter) Manager" where
  "withLimiter m t = m\<lparr>rateLimiter := Some (memoryRateLimiter t)\<rparr>"

definition isOk :: "error + 'a \<Rightarrow> bool" where
  "isOk x = (case x of Inl _ \<Rightarrow> False | Inr _ \<Rightarrow> True)"

text \<open>
  A manager with limit 2 and window one hour, and a call of \<open>Generate\<close> for the subject
  \<open>u1\<close> with both clocks reading \<open>t\<close>.
\<close>

definition limitedManager :: "(MemoryStore, MemoryRateLimiter) Manager" where
  "limitedManager = \<lparr>store = memoryStore, minTTL = 0, maxTTL = 0, rateLimiter = None,
                      rateLimit = 2, rateWindow = Hour\<rparr>"

definition limitedCall :: "Time \<Rightarrow> uuid \<Rightarrow> MemoryStore \<times> MemoryRateLimiter \<Rightarrow>
    (error + Token \<times> string) \<times> MemoryStore \<times> MemoryRateLimiter" where
  "limitedCall t newID sr =
     Generate exampleMac (withLimiter limitedManager t) t newID ''s'' ''u1'' ''login'' (300 * Second) sr"

text \<open>
  A server holding the unused token \<open>t\<close> under its key, the key expiring at the
  server's current millisecond.
\<close>

definition lastMillisecond :: "Token \<Rightarrow> int \<Rightarrow> Redis" where
  "lastMillisecond t now =
     \<lparr>db = [RedisStore_key (NewRedisStore []) (ID t) \<mapsto> \<lparr>blob = t\<lparr>Used := False\<rparr>, expire = Some now\<rparr>],
      mstime = now, online = True\<rparr>"

text \<open>
  Two calls of Verify that overlap: both run the first part, the checks on the token
  each has fetched, before either runs the second part, MarkUsed. The result is the two
  results and the state left.
\<close>

definition overlappingVerify ::
  "mac \<Rightarrow> ('s, 'r) Manager \<Rightarrow> Time \<Rightarrow> string \<Rightarrow> string \<Rightarrow> 's \<Rightarrow> (error + Token) \<times> (error + Token) \<times> 's" where
  "overlappingVerify H m now secretKey encoded s0 =
     (case Verify_check H m now secretKey encoded s0 of
        (a, s1) \<Rightarrow>
          (case Verify_check H m now secretKey encoded s1 of
             (b, s2) \<Rightarrow>
               (case (case a of Inl err \<Rightarrow> (Inl err, s2)
                             | Inr (tokenID, token) \<Rightarrow> Verify_mark m tokenID token s2) of
                  (ra, s3) \<Rightarrow>
                    (case (case b of Inl err \<Rightarrow> (Inl err, s3)
                                  | Inr (tokenID, token) \<Rightarrow> Verify_mark m tokenID token s3) of
                       (rb, s4) \<Rightarrow> (ra, rb, s4)))))"

section \<open>JSON values\<close>

text \<open>
  The values that JSON texts denote. The tokens of a value are those of its text: the
  elements of an array and the members of an object in the order written, with a comma
  between two of them. A number is kept as a token without its digits, for nothing here
  reads them. \<open>depth\<close> counts the arrays and objects that enclose one another.
\<close>

datatype json =
    JStr string | JNum | JTrue | JFalse | JNull
  | JArr "json list" | JObj "(string \<times> json) list"

fun joinComma :: "token list list \<Rightarrow> token list" where
  "joinComma [] = []"
| "joinComma [x] = x"
| "joinComma (x # y # ys) = x @ Comma # joinComma (y # ys)"

fun tokensOf :: "json \<Rightarrow> token list" where
  "tokensOf (JStr t) = [Str t]"
| "tokensOf JNum = [Num]"
| "tokensOf JTrue = [LitTrue]"
| "tokensOf JFalse = [LitFalse]"
| "tokensOf JNull = [LitNull]"
| "tokensOf (JArr vs) = BeginArray # joinComma (map tokensOf vs) @ [EndArray]"
| "tokensOf (JObj ms) =
     BeginObject # joinComma (map (\<lambda>(k, v). Str k # Colon # tokensOf v) ms) @ [EndObject]"

fun depth :: "json \<Rightarrow> nat" where
  "depth (JArr vs) = Suc (foldr max (map depth vs) 0)"
| "depth (JObj ms) = Suc (foldr max (map (\<lambda>(k, v). depth v) ms) 0)"
| "depth _ = 0"

text \<open>
  The bytes \<open>raw\<close> are a text of the value \<open>v\<close>: the lexical rules of JSON (strings
  with their escapes, numbers, the three literals, white space between tokens) cut them
  into the tokens of \<open>v\<close>.
\<close>

definition parsesAs :: "string \<Rightarrow> json \<Rightarrow> bool" where
  "parsesAs raw v = (lex raw = Some (tokensOf v))"

text \<open>
  What decoding a value into a \<open>payload\<close> asks of it. The value is an object or
  \<open>null\<close>. No member whose key selects a field holds anything but a string or \<open>null\<close>
  (\<open>typeError\<close> says that one does). A field is given the string of the last member
  whose key selects it and whose value is a string, and is empty if there is none.
\<close>

definition objectOrNull :: "json \<Rightarrow> bool" where
  "objectOrNull v = (case v of JObj _ \<Rightarrow> True | JNull \<Rightarrow> True | _ \<Rightarrow> False)"

definition stringOrNull :: "json \<Rightarrow> bool" where
  "stringOrNull v = (case v of JStr _ \<Rightarrow> True | JNull \<Rightarrow> True | _ \<Rightarrow> False)"

definition typeError :: "(string \<times> json) list \<Rightarrow> bool" where
  "typeError ms = (\<exists>(k, v) \<in> set ms. fieldByName k \<noteq> None \<and> \<not> stringOrNull v)"

definition stringsFor :: "field \<Rightarrow> (string \<times> json) list \<Rightarrow> string list" where
  "stringsFor f ms = [t. (k, JStr t) \<leftarrow> ms, fieldByName k = Some f]"

definition fieldValue :: "field \<Rightarrow> (string \<times> json) list \<Rightarrow> string" where
  "fieldValue f ms = (case stringsFor f ms of [] \<Rightarrow> [] | t # ts \<Rightarrow> last (t # ts))"

definition decodeValue :: "json \<Rightarrow> payload option" where
  "decodeValue v =
     (case v of
        JObj ms \<Rightarrow>
          if typeError ms then None
          else Some \<lparr>payload_ID = fieldValue FieldID ms, payload_Sig = fieldValue FieldSig ms\<rparr>
      | JNull \<Rightarrow> Some \<lparr>payload_ID = [], payload_Sig = []\<rparr>
      | _ \<Rightarrow> None)"

definition getField :: "field \<Rightarrow> payload \<Rightarrow> string" where
  "getField f p = (case f of FieldID \<Rightarrow> payload_ID p | FieldSig \<Rightarrow> payload_Sig p)"

text \<open>What the decoder does with one member, seen as a member of the value.\<close>

definition storeMember :: "decodeState \<Rightarrow> string \<times> json \<Rightarrow> decodeState" where
  "storeMember d m = literalStore (fieldByName (fst m)) (hd (tokensOf (snd m))) d"

text \<open>
  What the scanner has read when it has accepted a list of tokens from the start of a
  value, from behind an element of an array, and from behind a member of an object.
\<close>

definition valueAt :: "parseState list \<Rightarrow> token list \<Rightarrow> bool" where
  "valueAt ps ts = (\<exists>v rest. ts = tokensOf v @ rest \<and> scan (endOf ps) ps rest)"

definition elementsAt :: "parseState list \<Rightarrow> token list \<Rightarrow> bool" where
  "elementsAt ps ts =
     (\<exists>vs rest. ts = concat (map (\<lambda>y. Comma # y) (map tokensOf vs)) @ EndArray # rest
        \<and> scan (endOf ps) ps rest)"

definition membersAt :: "parseState list \<Rightarrow> token list \<Rightarrow> bool" where
  "membersAt ps ts =
     (\<exists>ms rest. ts = concat (map (\<lambda>y. Comma # y) (map (\<lambda>(k, v). Str k # Colon # tokensOf v) ms))
                    @ EndObject # rest
        \<and> scan (endOf ps) ps rest)"

text \<open>Arrays nested \<open>n\<close> deep around \<open>null\<close>, and their text.\<close>

fun nested :: "nat \<Rightarrow> json" where
  "nested 0 = JNull"
| "nested (Suc n) = JArr [nested n]"

definition nestedText :: "nat \<Rightarrow> string" where
  "nestedText n = replicate n CHR ''['' @ ''null'' @ replicate n CHR '']''"


section \<open>MarkUsed of the two stores\<close>

lemma redis_lookup_SET_PX:
  "0 < ms \<Longrightarrow> redis_lookup (redis_SET_PX srv k v ms) k = Some \<lparr>blob = v, expire = Some (mstime srv + ms)\<rparr>"
  by (simp add: redis_lookup_def redis_SET_PX_def)

lemma redis_lookup_SET:
  "redis_lookup (redis_SET srv k v) k = Some \<lparr>blob = v, expire = None\<rparr>"
  by (simp add: redis_lookup_def redis_SET_def)

lemma markUsedScript_absent:
  "redis_GET srv k = None \<Longrightarrow> markUsedScript srv k = (0, srv)"
  by (simp add: markUsedScript_def)

lemma markUsedScript_used:
  "redis_GET srv k = Some t \<Longrightarrow> Used t \<Longrightarrow> markUsedScript srv k = (- 1, srv)"
  by (simp add: markUsedScript_def)

lemma markUsedScript_unused:
  assumes "redis_GET srv k = Some t" and "\<not> Used t"
  shows "fst (markUsedScript srv k) = 1"
    and "redis_GET (snd (markUsedScript srv k)) k = Some (t\<lparr>Used := True\<rparr>)"
proof -
  have eq: "markUsedScript srv k =
      (1, if 0 < redis_PTTL srv k then redis_SET_PX srv k (t\<lparr>Used := True\<rparr>) (redis_PTTL srv k)
          else redis_SET srv k (t\<lparr>Used := True\<rparr>))"
    using assms by (simp add: markUsedScript_def Let_def)
  show "fst (markUsedScript srv k) = 1"
    by (simp add: eq)
  show "redis_GET (snd (markUsedScript srv k)) k = Some (t\<lparr>Used := True\<rparr>)"
    unfolding eq by (simp add: redis_GET_def redis_lookup_SET redis_lookup_SET_PX)
qed

text \<open>
  The cache-backed store does what the contract of \<open>MarkUsed\<close> says, when the server is
  reached: not found, already used, or marked.
\<close>

lemma RedisStore_MarkUsed_contract:
  assumes "online srv"
  shows "redis_GET srv (RedisStore_key st tid) = None \<Longrightarrow>
           RedisStore_MarkUsed st srv tid = (Some ErrNotFound, srv)"
    and "redis_GET srv (RedisStore_key st tid) = Some t \<Longrightarrow> Used t \<Longrightarrow>
           RedisStore_MarkUsed st srv tid = (Some ErrUsed, srv)"
    and "redis_GET srv (RedisStore_key st tid) = Some t \<Longrightarrow> \<not> Used t \<Longrightarrow>
           fst (RedisStore_MarkUsed st srv tid) = None \<and>
           redis_GET (snd (RedisStore_MarkUsed st srv tid)) (RedisStore_key st tid)
             = Some (t\<lparr>Used := True\<rparr>)"
proof -
  show "redis_GET srv (RedisStore_key st tid) = None \<Longrightarrow>
          RedisStore_MarkUsed st srv tid = (Some ErrNotFound, srv)"
    using assms by (simp add: RedisStore_MarkUsed_def markUsedScript_absent)
  show "redis_GET srv (RedisStore_key st tid) = Some t \<Longrightarrow> Used t \<Longrightarrow>
          RedisStore_MarkUsed st srv tid = (Some ErrUsed, srv)"
    using assms by (simp add: RedisStore_MarkUsed_def markUsedScript_used)
  show "fst (RedisStore_MarkUsed st srv tid) = None \<and>
        redis_GET (snd (RedisStore_MarkUsed st srv tid)) (RedisStore_key st tid)
          = Some (t\<lparr>Used := True\<rparr>)"
    if g: "redis_GET srv (RedisStore_key st tid) = Some t" and u: "\<not> Used t"
  proof -
    obtain res srv' where sc: "markUsedScript srv (RedisStore_key st tid) = (res, srv')"
      by (cases "markUsedScript srv (RedisStore_key st tid)")
    from markUsedScript_unused[OF g u] sc have "res = 1"
      and "redis_GET srv' (RedisStore_key st tid) = Some (t\<lparr>Used := True\<rparr>)"
      by simp_all
    with sc assms show ?thesis by (simp add: RedisStore_MarkUsed_def)
  qed
qed

text \<open>
  C1. For a token present in a Store, MarkUsed returns ok when the record's used flag is
  false and AlreadyUsed when it is already true, so that after one MarkUsed has
  succeeded every later one fails with AlreadyUsed. The in-memory store does not do
  this: its MarkUsed never looks at the flag. On a record whose flag is already set it
  writes the record back and returns no error, and a second MarkUsed right after a
  first succeeds as the first did.
\<close>

theorem MemoryStore_MarkUsed_ignores_used:
  "MemoryStore_MarkUsed (s(tid \<mapsto> t\<lparr>Used := True\<rparr>)) tid = (None, s(tid \<mapsto> t\<lparr>Used := True\<rparr>))
   \<and> MemoryStore_MarkUsed (s(tid \<mapsto> t\<lparr>Used := False\<rparr>)) tid = (None, s(tid \<mapsto> t\<lparr>Used := True\<rparr>))
   \<and> fst (MemoryStore_MarkUsed (snd (MemoryStore_MarkUsed (s(tid \<mapsto> t)) tid)) tid) = None"
proof (intro conjI)
  show "MemoryStore_MarkUsed (s(tid \<mapsto> t\<lparr>Used := True\<rparr>)) tid = (None, s(tid \<mapsto> t\<lparr>Used := True\<rparr>))"
    by (simp add: MemoryStore_MarkUsed_def)
  show "MemoryStore_MarkUsed (s(tid \<mapsto> t\<lparr>Used := False\<rparr>)) tid = (None, s(tid \<mapsto> t\<lparr>Used := True\<rparr>))"
    by (simp add: MemoryStore_MarkUsed_def)
  show "fst (MemoryStore_MarkUsed (snd (MemoryStore_MarkUsed (s(tid \<mapsto> t)) tid)) tid) = None"
    by (simp add: MemoryStore_MarkUsed_def)
qed

section \<open>Base64 decoding inverts encoding\<close>

lemma below_64_cases:
  assumes "n < (64::nat)" and "list_all P [0..<64]"
  shows "P n"
  using assms by (simp add: list_all_iff)

lemma decodeMap_encodeURL: "n < 64 \<Longrightarrow> decodeMap (encodeURL ! n) = Some n"
  by (erule below_64_cases) (simp add: upt_rec decodeMap_def encodeURL_def)

lemma encodeURL_not_newline: "n < 64 \<Longrightarrow> encodeURL ! n \<noteq> CHR 0x0D \<and> encodeURL ! n \<noteq> CHR 0x0A"
  by (erule below_64_cases) (simp add: upt_rec encodeURL_def)

lemma sextets_Nil: "sextets [] = Some []"
  by (simp add: sextets_def)

lemma sextets_Cons:
  "n < 64 \<Longrightarrow> sextets (encodeURL ! n # xs) = map_option ((#) n) (sextets xs)"
  using encodeURL_not_newline[of n] decodeMap_encodeURL[of n]
  by (simp add: sextets_def)

lemma split64: "(v::nat) div 64 mod 64 * 64 + v mod 64 = v mod 4096"
proof -
  have "v mod 4096 = v mod (64 * 64)" by simp
  also have "\<dots> = 64 * (v div 64 mod 64) + v mod 64" by (rule mod_mult2_eq)
  finally show ?thesis by simp
qed

lemma split4096: "(v::nat) div 4096 mod 64 * 4096 + v mod 4096 = v mod 262144"
proof -
  have "v mod 262144 = v mod (4096 * 64)" by simp
  also have "\<dots> = 4096 * (v div 4096 mod 64) + v mod 4096" by (rule mod_mult2_eq)
  finally show ?thesis by simp
qed

lemma regroup24:
  fixes v :: nat
  assumes "v < 16777216"
  shows "(v div 262144 mod 64) * 262144 + (v div 4096 mod 64) * 4096 + (v div 64 mod 64) * 64 + v mod 64 = v"
proof -
  have "v div 262144 < 64" using assms by simp
  then have a: "v div 262144 mod 64 = v div 262144" by simp
  have "v div 262144 * 262144 + v mod 262144 = v" by simp
  with a split64[of v] split4096[of v] show ?thesis by linarith
qed

lemma nat24:
  fixes a b c :: nat
  assumes "b < 256" and "c < 256"
  shows "(a * 65536 + b * 256 + c) div 65536 = a"
    and "(a * 65536 + b * 256 + c) div 256 mod 256 = b"
    and "(a * 65536 + b * 256 + c) mod 256 = c"
proof -
  show "(a * 65536 + b * 256 + c) div 65536 = a" using assms by simp
  have f: "a * 65536 + b * 256 + c = (a * 256 + b) * 256 + c" by simp
  have "((a * 256 + b) * 256 + c) div 256 = (a * 256 + b) + c div 256"
    by (rule div_mult_self3) simp
  also have "\<dots> = a * 256 + b" using assms by simp
  finally have d: "(a * 65536 + b * 256 + c) div 256 = a * 256 + b" by (simp only: f)
  have "(a * 256 + b) mod 256 = b mod 256" by (rule mod_mult_self3)
  then show "(a * 65536 + b * 256 + c) div 256 mod 256 = b" using assms by (simp only: d mod_less)
  have "((a * 256 + b) * 256 + c) mod 256 = c mod 256" by (rule mod_mult_self3)
  then show "(a * 65536 + b * 256 + c) mod 256 = c" using assms by (simp only: f mod_less)
qed

lemma bytes_of_24:
  fixes a b c :: char
  defines "v \<equiv> (of_char a :: nat) * 65536 + of_char b * 256 + of_char c"
  shows "v < 16777216" and "char_of (v div 65536) = a" and "char_of (v div 256) = b" and "char_of v = c"
proof -
  have la: "(of_char a :: nat) < 256" and lb: "(of_char b :: nat) < 256" and lc: "(of_char c :: nat) < 256"
    by simp_all
  show "v < 16777216" using la lb lc unfolding v_def by linarith
  have "v div 65536 = of_char a" unfolding v_def by (rule nat24(1)[OF lb lc])
  then show "char_of (v div 65536) = a" by simp
  have "v div 256 mod 256 = of_char b" unfolding v_def by (rule nat24(2)[OF lb lc])
  then have "char_of (v div 256 mod 256) = b" by simp
  then show "char_of (v div 256) = b" by (simp only: char_of_mod_256)
  have "v mod 256 = of_char c" unfolding v_def by (rule nat24(3)[OF lb lc])
  then have "char_of (v mod 256) = c" by simp
  then show "char_of v = c" by (simp only: char_of_mod_256)
qed

lemma mod64_zero:
  "((x::nat) * 65536 + y * 256) mod 64 = 0"
  "((x::nat) * 65536) mod 64 = 0"
  "((x::nat) * 65536) div 64 mod 64 = 0"
proof -
  have "x * 65536 + y * 256 = 64 * (x * 1024 + y * 4)" by simp
  then show "(x * 65536 + y * 256) mod 64 = 0" by (metis mod_mult_self1_is_0)
  have e: "x * 65536 = 64 * (x * 1024)" by simp
  show "(x * 65536) mod 64 = 0" unfolding e by (rule mod_mult_self1_is_0)
  have "x * 65536 div 64 = 64 * (x * 16)" by simp
  then show "(x * 65536) div 64 mod 64 = 0" by (metis mod_mult_self1_is_0)
qed

lemma decodeQuanta_24:
  fixes a b c :: char
  assumes v: "v = (of_char a :: nat) * 65536 + of_char b * 256 + of_char c"
    and w: "n0 * 262144 + n1 * 4096 + n2 * 64 + n3 = v"
  shows "decodeQuanta (n0 # n1 # n2 # n3 # ds) = map_option (\<lambda>r. a # b # c # r) (decodeQuanta ds)"
    and "n3 = 0 \<Longrightarrow> decodeQuanta [n0, n1, n2] = Some [a, b]"
    and "n3 = 0 \<Longrightarrow> n2 = 0 \<Longrightarrow> decodeQuanta [n0, n1] = Some [a]"
proof -
  note bv = bytes_of_24[of a b c, folded v]
  show "decodeQuanta (n0 # n1 # n2 # n3 # ds) = map_option (\<lambda>r. a # b # c # r) (decodeQuanta ds)"
    by (simp add: Let_def w bv)
  show "decodeQuanta [n0, n1, n2] = Some [a, b]" if "n3 = 0"
    using w that by (simp add: Let_def bv)
  show "decodeQuanta [n0, n1] = Some [a]" if "n3 = 0" "n2 = 0"
    using w that by (simp add: Let_def bv)
qed

lemma base64_roundtrip_aux:
  "\<exists>ds. sextets (EncodeToString bs) = Some ds \<and> decodeQuanta ds = Some bs"
proof (induction bs rule: EncodeToString.induct)
  case (1 a b c rest)
  then obtain ds where ds: "sextets (EncodeToString rest) = Some ds" "decodeQuanta ds = Some rest"
    by blast
  define v where "v = (of_char a :: nat) * 65536 + of_char b * 256 + of_char c"
  define n0 n1 n2 n3 where "n0 = v div 262144 mod 64" and "n1 = v div 4096 mod 64"
    and "n2 = v div 64 mod 64" and "n3 = v mod 64"
  have lt: "n0 < 64" "n1 < 64" "n2 < 64" "n3 < 64"
    by (simp_all add: n0_def n1_def n2_def n3_def)
  have w: "n0 * 262144 + n1 * 4096 + n2 * 64 + n3 = v"
    unfolding n0_def n1_def n2_def n3_def
    by (rule regroup24) (rule bytes_of_24(1)[of a b c, folded v_def])
  have enc: "EncodeToString (a # b # c # rest) =
      encodeURL ! n0 # encodeURL ! n1 # encodeURL ! n2 # encodeURL ! n3 # EncodeToString rest"
    by (simp add: v_def Let_def n0_def n1_def n2_def n3_def)
  have sx: "sextets (EncodeToString (a # b # c # rest)) = Some (n0 # n1 # n2 # n3 # ds)"
    unfolding enc by (simp add: sextets_Cons lt ds)
  have "decodeQuanta (n0 # n1 # n2 # n3 # ds) = Some (a # b # c # rest)"
    unfolding decodeQuanta_24(1)[OF v_def w] ds by simp
  with sx show ?case by blast
next
  case (2 a b)
  define v where "v = (of_char a :: nat) * 65536 + of_char b * 256 + of_char (CHR 0x00)"
  define n0 n1 n2 n3 where "n0 = v div 262144 mod 64" and "n1 = v div 4096 mod 64"
    and "n2 = v div 64 mod 64" and "n3 = v mod 64"
  have lt: "n0 < 64" "n1 < 64" "n2 < 64"
    by (simp_all add: n0_def n1_def n2_def)
  have w: "n0 * 262144 + n1 * 4096 + n2 * 64 + n3 = v"
    unfolding n0_def n1_def n2_def n3_def
    by (rule regroup24) (rule bytes_of_24(1)[of a b "CHR 0x00", folded v_def])
  have v': "v = (of_char a :: nat) * 65536 + of_char b * 256" by (simp add: v_def)
  have z: "n3 = 0" unfolding n3_def v' by (rule mod64_zero)
  have enc: "EncodeToString [a, b] = [encodeURL ! n0, encodeURL ! n1, encodeURL ! n2]"
    by (simp add: v' Let_def n0_def n1_def n2_def)
  have sx: "sextets (EncodeToString [a, b]) = Some [n0, n1, n2]"
    unfolding enc by (simp add: sextets_Cons sextets_Nil lt)
  from decodeQuanta_24(2)[OF v_def w z] sx show ?case by blast
next
  case (3 a)
  define v where "v = (of_char a :: nat) * 65536 + of_char (CHR 0x00) * 256 + of_char (CHR 0x00)"
  define n0 n1 n2 n3 where "n0 = v div 262144 mod 64" and "n1 = v div 4096 mod 64"
    and "n2 = v div 64 mod 64" and "n3 = v mod 64"
  have lt: "n0 < 64" "n1 < 64"
    by (simp_all add: n0_def n1_def)
  have w: "n0 * 262144 + n1 * 4096 + n2 * 64 + n3 = v"
    unfolding n0_def n1_def n2_def n3_def
    by (rule regroup24) (rule bytes_of_24(1)[of a "CHR 0x00" "CHR 0x00", folded v_def])
  have v': "v = (of_char a :: nat) * 65536" by (simp add: v_def)
  have z: "n3 = 0" "n2 = 0" unfolding n3_def n2_def v' by (rule mod64_zero)+
  have enc: "EncodeToString [a] = [encodeURL ! n0, encodeURL ! n1]"
    by (simp add: v' Let_def n0_def n1_def)
  have sx: "sextets (EncodeToString [a]) = Some [n0, n1]"
    unfolding enc by (simp add: sextets_Cons sextets_Nil lt)
  from decodeQuanta_24(3)[OF v_def w z] sx show ?case by blast
next
  case 4
  show ?case by (simp add: sextets_Nil)
qed

lemma DecodeString_EncodeToString: "DecodeString (EncodeToString bs) = Some bs"
  using base64_roundtrip_aux[of bs] by (auto simp: DecodeString_def sextets_def)

section \<open>Encoding a decoded code point gives back its bytes\<close>

lemma divmod_pos:
  fixes k x m :: nat
  assumes "x < m"
  shows "(k * m + x) div m = k" and "(k * m + x) mod m = x"
  using assms by simp_all

lemma EncodeRune_2:
  assumes "2 \<le> k" and "k \<le> 31" and "m < 64"
  shows "EncodeRune (k * 64 + m) = [char_of (192 + k), char_of (128 + m)]"
proof -
  have lo: "\<not> k * 64 + m \<le> 127" using assms by linarith
  have hi: "k * 64 + m \<le> 2047" using assms by linarith
  show ?thesis
    unfolding EncodeRune_def using lo hi
    by (simp only: if_True if_False divmod_pos[OF assms(3)])
qed

lemma EncodeRune_3:
  assumes "k \<le> 15" and "m1 < 64" and "m2 < 64"
    and r: "r = k * 4096 + m1 * 64 + m2"
    and lo: "2048 \<le> r" and ns: "\<not> (55296 \<le> r \<and> r \<le> 57343)"
  shows "EncodeRune r = [char_of (224 + k), char_of (128 + m1), char_of (128 + m2)]"
proof -
  have c1: "\<not> r \<le> 127" "\<not> r \<le> 2047" using lo by linarith+
  have c2: "\<not> (r > 1114111 \<or> (55296 \<le> r \<and> r \<le> 57343))" using ns r assms(1-3) by linarith
  have c3: "r \<le> 65535" using r assms(1-3) by linarith
  have x: "m1 * 64 + m2 < 4096" using assms(2,3) by linarith
  have r1: "r = k * 4096 + (m1 * 64 + m2)" using r by simp
  have r2: "r = (k * 64 + m1) * 64 + m2" using r by simp
  have d1: "r div 4096 = k" unfolding r1 by (rule divmod_pos(1)[OF x])
  have "r div 64 = k * 64 + m1" unfolding r2 by (rule divmod_pos(1)[OF assms(3)])
  then have d2: "r div 64 mod 64 = m1" by (simp only: divmod_pos(2)[OF assms(2)])
  have d3: "r mod 64 = m2" unfolding r2 by (rule divmod_pos(2)[OF assms(3)])
  show ?thesis
    unfolding EncodeRune_def using c1 c2 c3
    by (simp only: if_True if_False d1 d2 d3)
qed

lemma EncodeRune_4:
  assumes "k \<le> 4" and "m1 < 64" and "m2 < 64" and "m3 < 64"
    and r: "r = k * 262144 + m1 * 4096 + m2 * 64 + m3"
    and lo: "65536 \<le> r" and hi: "r \<le> 1114111"
  shows "EncodeRune r = [char_of (240 + k), char_of (128 + m1), char_of (128 + m2), char_of (128 + m3)]"
proof -
  have c1: "\<not> r \<le> 127" "\<not> r \<le> 2047" "\<not> r \<le> 65535" using lo by linarith+
  have c2: "\<not> (r > 1114111 \<or> (55296 \<le> r \<and> r \<le> 57343))" using lo hi by linarith
  have x: "m1 * 4096 + m2 * 64 + m3 < 262144" using assms(2-4) by linarith
  have y: "m2 * 64 + m3 < 4096" using assms(3,4) by linarith
  have r1: "r = k * 262144 + (m1 * 4096 + m2 * 64 + m3)" using r by simp
  have r2: "r = (k * 64 + m1) * 4096 + (m2 * 64 + m3)" using r by simp
  have r3: "r = ((k * 64 + m1) * 64 + m2) * 64 + m3" using r by simp
  have d1: "r div 262144 = k" unfolding r1 by (rule divmod_pos(1)[OF x])
  have "r div 4096 = k * 64 + m1" unfolding r2 by (rule divmod_pos(1)[OF y])
  then have d2: "r div 4096 mod 64 = m1" by (simp only: divmod_pos(2)[OF assms(2)])
  have "r div 64 = (k * 64 + m1) * 64 + m2" unfolding r3 by (rule divmod_pos(1)[OF assms(4)])
  then have d3: "r div 64 mod 64 = m2" by (simp only: divmod_pos(2)[OF assms(3)])
  have d4: "r mod 64 = m3" unfolding r3 by (rule divmod_pos(2)[OF assms(4)])
  show ?thesis
    unfolding EncodeRune_def using c1 c2
    by (simp only: if_True if_False d1 d2 d3 d4)
qed


lemma DecodeRune_cases:
  assumes d: "DecodeRune (c # cs) = (r, n)" and hi: "128 \<le> (of_char c :: nat)"
    and ok: "\<not> (r = RuneError \<and> n = 1)"
  obtains
    (two) b1 rest where "cs = b1 # rest" "194 \<le> (of_char c :: nat)" "(of_char c :: nat) \<le> 223"
      "128 \<le> (of_char b1 :: nat)" "(of_char b1 :: nat) \<le> 191"
      "r = (of_char c - 192) * 64 + (of_char b1 - 128)" "n = 2"
  | (three) b1 b2 rest where "cs = b1 # b2 # rest" "224 \<le> (of_char c :: nat)" "(of_char c :: nat) \<le> 239"
      "(if (of_char c :: nat) = 224 then 160 else 128) \<le> (of_char b1 :: nat)"
      "(of_char b1 :: nat) \<le> (if (of_char c :: nat) = 237 then 159 else 191)"
      "128 \<le> (of_char b2 :: nat)" "(of_char b2 :: nat) \<le> 191"
      "r = (of_char c - 224) * 4096 + (of_char b1 - 128) * 64 + (of_char b2 - 128)" "n = 3"
  | (four) b1 b2 b3 rest where "cs = b1 # b2 # b3 # rest" "240 \<le> (of_char c :: nat)" "(of_char c :: nat) \<le> 244"
      "(if (of_char c :: nat) = 240 then 144 else 128) \<le> (of_char b1 :: nat)"
      "(of_char b1 :: nat) \<le> (if (of_char c :: nat) = 244 then 143 else 191)"
      "128 \<le> (of_char b2 :: nat)" "(of_char b2 :: nat) \<le> 191"
      "128 \<le> (of_char b3 :: nat)" "(of_char b3 :: nat) \<le> 191"
      "r = (of_char c - 240) * 262144 + (of_char b1 - 128) * 4096 + (of_char b2 - 128) * 64 + (of_char b3 - 128)"
      "n = 4"
proof -
  define b0 where "b0 = (of_char c :: nat)"
  have nlt: "\<not> b0 < 128" using hi by (simp add: b0_def)
  consider (A) "194 \<le> b0 \<and> b0 \<le> 223" | (B) "224 \<le> b0 \<and> b0 \<le> 239" | (C) "240 \<le> b0 \<and> b0 \<le> 244"
    | (D) "\<not> (194 \<le> b0 \<and> b0 \<le> 223) \<and> \<not> (224 \<le> b0 \<and> b0 \<le> 239) \<and> \<not> (240 \<le> b0 \<and> b0 \<le> 244)"
    by blast
  then show thesis
  proof cases
    case A
    with d nlt ok have "\<exists>b1 rest. cs = b1 # rest \<and> inRange 128 191 b1
        \<and> r = (b0 - 192) * 64 + (of_char b1 - 128) \<and> n = 2"
      unfolding DecodeRune_def b0_def[symmetric]
      by (cases cs) (auto simp: Let_def b0_def[symmetric] split: if_splits)
    with A two show thesis unfolding inRange_def b0_def by blast
  next
    case B
    then have nA: "\<not> (194 \<le> b0 \<and> b0 \<le> 223)" by linarith
    from d nlt ok nA B have "\<exists>b1 b2 rest. cs = b1 # b2 # rest
        \<and> inRange (if b0 = 224 then 160 else 128) (if b0 = 237 then 159 else 191) b1
        \<and> inRange 128 191 b2
        \<and> r = (b0 - 224) * 4096 + (of_char b1 - 128) * 64 + (of_char b2 - 128) \<and> n = 3"
      unfolding DecodeRune_def b0_def[symmetric]
      by (cases cs; cases "tl cs") (auto simp: Let_def b0_def[symmetric] split: if_splits)
    with B three show thesis unfolding inRange_def b0_def by blast
  next
    case C
    then have nA: "\<not> (194 \<le> b0 \<and> b0 \<le> 223)" "\<not> (224 \<le> b0 \<and> b0 \<le> 239)" by linarith+
    from d nlt ok nA C have "\<exists>b1 b2 b3 rest. cs = b1 # b2 # b3 # rest
        \<and> inRange (if b0 = 240 then 144 else 128) (if b0 = 244 then 143 else 191) b1
        \<and> inRange 128 191 b2 \<and> inRange 128 191 b3
        \<and> r = (b0 - 240) * 262144 + (of_char b1 - 128) * 4096 + (of_char b2 - 128) * 64 + (of_char b3 - 128)
        \<and> n = 4"
      unfolding DecodeRune_def b0_def[symmetric]
      by (cases cs; cases "tl cs"; cases "tl (tl cs)") (auto simp: Let_def b0_def[symmetric] split: if_splits)
    with C four show thesis unfolding inRange_def b0_def by blast
  next
    case D
    with d nlt ok have False
      unfolding DecodeRune_def b0_def[symmetric]
      by (simp add: Let_def b0_def[symmetric])
    then show thesis ..
  qed
qed


lemma DecodeRune_EncodeRune:
  assumes d: "DecodeRune (c # cs) = (r, n)" and hi: "128 \<le> (of_char c :: nat)"
    and ok: "\<not> (r = RuneError \<and> n = 1)"
  shows "EncodeRune r = take n (c # cs)" and "2 \<le> n" and "n \<le> Suc (length cs)" and "128 \<le> r"
    and "DecodeRune (take n (c # cs) @ ys) = (r, n)"
proof -
  have "EncodeRune r = take n (c # cs) \<and> 2 \<le> n \<and> n \<le> Suc (length cs) \<and> 128 \<le> r
      \<and> DecodeRune (take n (c # cs) @ ys) = (r, n)"
  using d hi ok
  proof (cases rule: DecodeRune_cases)
    case (two b1 rest)
    define k m where "k = (of_char c :: nat) - 192" and "m = (of_char b1 :: nat) - 128"
    have km: "2 \<le> k" "k \<le> 31" "m < 64" "192 + k = of_char c" "128 + m = of_char b1"
      using two by (simp_all add: k_def m_def)
    have r: "r = k * 64 + m" using two by (simp add: k_def m_def)
    have "EncodeRune r = [c, b1]"
      unfolding r EncodeRune_2[OF km(1-3)] km(4,5) by simp
    moreover have "128 \<le> r" unfolding r using km(1) by linarith
    moreover have "DecodeRune ([c, b1] @ ys) = (r, 2)"
      using two(2-5) unfolding DecodeRune_def two(6)
      by (simp add: Let_def inRange_def)
    ultimately show ?thesis using two(1,7) by simp
  next
    case (three b1 b2 rest)
    define k m1 m2 where "k = (of_char c :: nat) - 224" and "m1 = (of_char b1 :: nat) - 128"
      and "m2 = (of_char b2 :: nat) - 128"
    have km: "k \<le> 15" "m1 < 64" "m2 < 64" "224 + k = of_char c" "128 + m1 = of_char b1"
        "128 + m2 = of_char b2"
      using three by (simp_all add: k_def m1_def m2_def split: if_splits)
    have r: "r = k * 4096 + m1 * 64 + m2" using three by (simp add: k_def m1_def m2_def)
    have k0: "k = 0 \<Longrightarrow> 32 \<le> m1" using three(2,4) by (simp add: k_def m1_def split: if_splits)
    have k13: "k = 13 \<Longrightarrow> m1 \<le> 31" using three(2,5) by (simp add: k_def m1_def split: if_splits)
    have lo: "2048 \<le> r"
    proof (cases "k = 0")
      case True
      with k0 show ?thesis unfolding r by linarith
    next
      case False
      then show ?thesis unfolding r by linarith
    qed
    have ns: "\<not> (55296 \<le> r \<and> r \<le> 57343)"
    proof -
      consider "k \<le> 12" | "k = 13" | "14 \<le> k" by linarith
      then show ?thesis
      proof cases
        case 1
        then show ?thesis unfolding r using km(2,3) by linarith
      next
        case 2
        with k13 show ?thesis unfolding r using km(3) by linarith
      next
        case 3
        then show ?thesis unfolding r by linarith
      qed
    qed
    have "EncodeRune r = [c, b1, b2]"
      unfolding EncodeRune_3[OF km(1-3) r lo ns] km(4-6) by simp
    moreover have "128 \<le> r" using lo by linarith
    moreover have "DecodeRune ([c, b1, b2] @ ys) = (r, 3)"
      using three(2-7) unfolding DecodeRune_def three(8)
      by (simp add: Let_def inRange_def)
    ultimately show ?thesis using three(1,9) by simp
  next
    case (four b1 b2 b3 rest)
    define k m1 m2 m3 where "k = (of_char c :: nat) - 240" and "m1 = (of_char b1 :: nat) - 128"
      and "m2 = (of_char b2 :: nat) - 128" and "m3 = (of_char b3 :: nat) - 128"
    have km: "k \<le> 4" "m1 < 64" "m2 < 64" "m3 < 64" "240 + k = of_char c" "128 + m1 = of_char b1"
        "128 + m2 = of_char b2" "128 + m3 = of_char b3"
      using four by (simp_all add: k_def m1_def m2_def m3_def split: if_splits)
    have r: "r = k * 262144 + m1 * 4096 + m2 * 64 + m3"
      using four by (simp add: k_def m1_def m2_def m3_def)
    have k0: "k = 0 \<Longrightarrow> 16 \<le> m1" using four(2,4) by (simp add: k_def m1_def split: if_splits)
    have k4: "k = 4 \<Longrightarrow> m1 \<le> 15" using four(2,5) by (simp add: k_def m1_def split: if_splits)
    have lo: "65536 \<le> r"
    proof (cases "k = 0")
      case True
      with k0 show ?thesis unfolding r by linarith
    next
      case False
      then show ?thesis unfolding r by linarith
    qed
    have hi': "r \<le> 1114111"
    proof (cases "k = 4")
      case True
      with k4 show ?thesis unfolding r using km(3,4) by linarith
    next
      case False
      with km(1) have "k \<le> 3" by linarith
      then show ?thesis unfolding r using km(2-4) by linarith
    qed
    have "EncodeRune r = [c, b1, b2, b3]"
      unfolding EncodeRune_4[OF km(1-4) r lo hi'] km(5-8) by simp
    moreover have "128 \<le> r" using lo by linarith
    moreover have "DecodeRune ([c, b1, b2, b3] @ ys) = (r, 4)"
      using four(2-9) unfolding DecodeRune_def four(10)
      by (simp add: Let_def inRange_def)
    ultimately show ?thesis using four(1,11) by simp
  qed
  then show "EncodeRune r = take n (c # cs)" and "2 \<le> n" and "n \<le> Suc (length cs)" and "128 \<le> r"
    and "DecodeRune (take n (c # cs) @ ys) = (r, n)"
    by simp_all
qed

section \<open>Decoding a payload inverts encoding it\<close>

lemma below_16_cases:
  assumes "n < (16::nat)" and "list_all P [0..<16]"
  shows "P n"
  using assms by (simp add: list_all_iff)

lemma xvalue_hexdigit: "k < 16 \<Longrightarrow> xvalue (hexdigit k) = Some k"
  by (erule below_16_cases) (simp add: upt_rec xvalue_def hexdigit_def)

lemma hex4_byte:
  assumes "n < 256"
  shows "hex4 (CHR ''0'') (CHR ''0'') (hexdigit (n div 16)) (hexdigit (n mod 16)) = Some n"
proof -
  have "n div 16 < 16" using assms by simp
  moreover have "n mod 16 < 16" by simp
  moreover have "xvalue (CHR ''0'') = Some 0" by (simp add: xvalue_def)
  ultimately show ?thesis by (simp add: hex4_def xvalue_hexdigit)
qed

lemma unquoteStep_escapeByte:
  assumes lt: "(of_char c :: nat) < 128" and ns: "\<not> htmlSafe c"
  shows "\<exists>t. escapeByte c = CHR 0x5C # t \<and> unquoteStep (CHR 0x5C # t @ X) = Some ([c], Suc (length t))"
proof -
  consider (short) "c = CHR 0x5C \<or> c = CHR 0x22 \<or> c = CHR 0x08 \<or> c = CHR 0x0C \<or> c = CHR 0x0A
        \<or> c = CHR 0x0D \<or> c = CHR 0x09"
    | (long) "\<not> (c = CHR 0x5C \<or> c = CHR 0x22 \<or> c = CHR 0x08 \<or> c = CHR 0x0C \<or> c = CHR 0x0A
        \<or> c = CHR 0x0D \<or> c = CHR 0x09)"
    by blast
  then show ?thesis
  proof cases
    case short
    then show ?thesis
      by (auto simp: escapeByte_def unquoteStep_def unquoteEscape_def)
  next
    case long
    define n where "n = (of_char c :: nat)"
    have n: "n < 128" using lt by (simp add: n_def)
    then have n256: "n < 256" by simp
    have esc: "escapeByte c = [CHR 0x5C, CHR ''u'', CHR ''0'', CHR ''0'', hexdigit (n div 16), hexdigit (n mod 16)]"
      using long by (simp add: escapeByte_def n_def)
    have g: "getu4 ([CHR 0x5C, CHR ''u'', CHR ''0'', CHR ''0'', hexdigit (n div 16), hexdigit (n mod 16)] @ X) = Some n"
      by (simp add: getu4_def hex4_byte[OF n256])
    have e: "EncodeRune n = [c]" using n by (simp add: EncodeRune_def n_def)
    have "unquoteStep ([CHR 0x5C, CHR ''u'', CHR ''0'', CHR ''0'', hexdigit (n div 16), hexdigit (n mod 16)] @ X)
        = Some ([c], 6)"
      using g n e by (simp add: unquoteStep_def unquoteEscape_def)
    with esc show ?thesis by simp
  qed
qed


lemma lexString_step:
  assumes "c \<noteq> CHR 0x22" and "unquoteStep (c # t @ X) = Some (out, Suc (length t))"
    and "lexString X = Some (u, rest)"
  shows "lexString (c # t @ X) = Some (out @ u, rest)"
  using assms by (simp add: emit_def)

lemma getu4_2028:
  assumes "r = 8232 \<or> r = (8233::nat)"
  shows "getu4 ([CHR 0x5C, CHR ''u'', CHR ''2'', CHR ''0'', CHR ''2'', hexdigit (r mod 16)] @ X) = Some r"
  using assms by (auto simp: getu4_def hex4_def xvalue_def hexdigit_def)

lemma lexString_appendBody:
  "validUTF8 s \<Longrightarrow> lexString (appendBody s @ CHR 0x22 # rest) = Some (s, rest)"
proof (induction s rule: appendBody.induct)
  case 1
  show ?case by simp
next
  case (2 c cs)
  show ?case
  proof (cases "(of_char c :: nat) < 128")
    case True
    with "2.prems" have v: "validUTF8 cs" by simp
    show ?thesis
    proof (cases "htmlSafe c")
      case safe: True
      from "2.IH"(1)[OF True safe v]
      have ih: "lexString (appendBody cs @ CHR 0x22 # rest) = Some (cs, rest)" .
      have nq: "c \<noteq> CHR 0x22" and nb: "c \<noteq> CHR 0x5C" and ge: "\<not> (of_char c :: nat) < 32"
        using safe by (auto simp: htmlSafe_def)
      have st: "unquoteStep (c # [] @ appendBody cs @ CHR 0x22 # rest) = Some ([c], Suc (length ([]::string)))"
        using nq nb ge True by (simp add: unquoteStep_def)
      from lexString_step[OF nq st ih] True safe show ?thesis by simp
    next
      case unsafe: False
      from "2.IH"(2)[OF True unsafe v]
      have ih: "lexString (appendBody cs @ CHR 0x22 # rest) = Some (cs, rest)" .
      from unquoteStep_escapeByte[OF True unsafe, of "appendBody cs @ CHR 0x22 # rest"]
      obtain t where t: "escapeByte c = CHR 0x5C # t"
        and st: "unquoteStep (CHR 0x5C # t @ appendBody cs @ CHR 0x22 # rest) = Some ([c], Suc (length t))"
        by blast
      have "lexString (CHR 0x5C # t @ appendBody cs @ CHR 0x22 # rest) = Some ([c] @ cs, rest)"
        by (rule lexString_step[OF _ st ih]) simp
      with True unsafe t show ?thesis by simp
    qed
  next
    case False
    then have hi: "128 \<le> (of_char c :: nat)" by simp
    obtain r n where d: "DecodeRune (c # cs) = (r, n)" by (cases "DecodeRune (c # cs)")
    from "2.prems" False d have ok: "\<not> (r = RuneError \<and> n = 1)"
      and v: "validUTF8 (drop (n - 1) cs)" by simp_all
    note dr = DecodeRune_EncodeRune[OF d hi ok]
    have nq: "c \<noteq> CHR 0x22" using hi by auto
    have nb: "c \<noteq> CHR 0x5C" using hi by auto
    have tk: "take n (c # cs) = c # take (n - 1) cs" using dr(2) by (cases n) simp_all
    have len: "length (take (n - 1) cs) = n - 1" using dr(3) by simp
    have whole: "take n (c # cs) @ drop (n - 1) cs = c # cs" unfolding tk by simp
    show ?thesis
    proof (cases "r = 8232 \<or> r = 8233")
      case sep: True
      then have ne: "\<not> (r = RuneError \<and> n = 1)" using ok by blast
      from "2.IH"(4)[OF False d[symmetric] ne sep v]
      have ih: "lexString (appendBody (drop (n - 1) cs) @ CHR 0x22 # rest) = Some (drop (n - 1) cs, rest)" .
      define t where "t = [CHR ''u'', CHR ''2'', CHR ''0'', CHR ''2'', hexdigit (r mod 16)]"
      have g: "getu4 (CHR 0x5C # t @ appendBody (drop (n - 1) cs) @ CHR 0x22 # rest) = Some r"
        using getu4_2028[OF sep] by (simp add: t_def)
      have ns: "\<not> 55296 \<le> r" using sep by auto
      have st: "unquoteStep (CHR 0x5C # t @ appendBody (drop (n - 1) cs) @ CHR 0x22 # rest)
          = Some (EncodeRune r, Suc (length t))"
        unfolding unquoteStep_def unquoteEscape_def
        using g ns by (simp add: t_def)
      have L: "lexString (CHR 0x5C # t @ appendBody (drop (n - 1) cs) @ CHR 0x22 # rest)
          = Some (EncodeRune r @ drop (n - 1) cs, rest)"
        by (rule lexString_step[OF _ st ih]) simp
      have ab: "appendBody (c # cs) = CHR 0x5C # t @ appendBody (drop (n - 1) cs)"
        using False d sep ne by (simp add: t_def)
      show ?thesis by (simp only: ab append_Cons append_assoc L dr(1) whole)
    next
      case other: False
      from "2.IH"(5)[OF False d[symmetric] ok other v]
      have ih: "lexString (appendBody (drop (n - 1) cs) @ CHR 0x22 # rest) = Some (drop (n - 1) cs, rest)" .
      have "DecodeRune (c # take (n - 1) cs @ appendBody (drop (n - 1) cs) @ CHR 0x22 # rest) = (r, n)"
        using dr(5)[of "appendBody (drop (n - 1) cs) @ CHR 0x22 # rest"] unfolding tk by simp
      then have st: "unquoteStep (c # take (n - 1) cs @ appendBody (drop (n - 1) cs) @ CHR 0x22 # rest)
          = Some (EncodeRune r, Suc (length (take (n - 1) cs)))"
        using nq nb False dr(2) len by (simp add: unquoteStep_def)
      have L: "lexString (c # take (n - 1) cs @ appendBody (drop (n - 1) cs) @ CHR 0x22 # rest)
          = Some (EncodeRune r @ drop (n - 1) cs, rest)"
        by (rule lexString_step[OF nq st ih])
      have ab: "appendBody (c # cs) = c # take (n - 1) cs @ appendBody (drop (n - 1) cs)"
        using False d other ok tk by simp
      show ?thesis by (simp only: ab append_Cons append_assoc L dr(1) whole)
    qed
  qed
qed


lemma lex_punct:
  "lex (CHR ''{'' # X) = map_option ((#) BeginObject) (lex X)"
  "lex (CHR ''}'' # X) = map_option ((#) EndObject) (lex X)"
  "lex (CHR '':'' # X) = map_option ((#) Colon) (lex X)"
  "lex (CHR '','' # X) = map_option ((#) Comma) (lex X)"
  by (simp_all add: isSpace_def)

lemma lex_appendString:
  assumes "validUTF8 s"
  shows "lex (appendString s @ X) = map_option ((#) (Str s)) (lex X)"
proof -
  have "lex (CHR 0x22 # appendBody s @ CHR 0x22 # X) = map_option ((#) (Str s)) (lex X)"
    using lexString_appendBody[OF assms, of X] by (simp add: isSpace_def)
  then show ?thesis by (simp add: appendString_def)
qed

lemma validUTF8_names: "validUTF8 ''id''" "validUTF8 ''sig''"
  by simp_all

lemma lex_Marshal:
  assumes "validUTF8 (payload_ID d)" and "validUTF8 (payload_Sig d)"
  shows "lex (Marshal d) =
    Some [BeginObject, Str ''id'', Colon, Str (payload_ID d), Comma,
          Str ''sig'', Colon, Str (payload_Sig d), EndObject]"
proof -
  have "Marshal d = CHR ''{'' # appendString ''id'' @ CHR '':'' # appendString (payload_ID d) @
      CHR '','' # appendString ''sig'' @ CHR '':'' # appendString (payload_Sig d) @ CHR ''}'' # []"
    by (simp add: Marshal_def)
  then show ?thesis
    by (simp only: lex_punct lex_appendString[OF assms(1)] lex_appendString[OF assms(2)]
        lex_appendString[OF validUTF8_names(1)] lex_appendString[OF validUTF8_names(2)]
        lex.simps(1) option.map)
qed

lemma checkValid_members:
  "checkValid [BeginObject, Str k1, Colon, Str v1, Comma, Str k2, Colon, Str v2, EndObject]"
  by (simp add: checkValid_def scanStep_def endOf_def maxNestingDepth_def isScalar_def)

lemma fieldByName_names: "fieldByName ''id'' = Some FieldID" "fieldByName ''sig'' = Some FieldSig"
  by (simp_all add: fieldByName_def)

lemma object_members:
  "object \<lparr>data = \<lparr>payload_ID = [], payload_Sig = []\<rparr>, savedError = False\<rparr>
     [Str ''id'', Colon, Str a, Comma, Str ''sig'', Colon, Str b, EndObject]
   = \<lparr>data = \<lparr>payload_ID = a, payload_Sig = b\<rparr>, savedError = False\<rparr>"
proof -
  have "object \<lparr>data = \<lparr>payload_ID = a, payload_Sig = []\<rparr>, savedError = False\<rparr>
          [Str ''sig'', Colon, Str b, EndObject]
        = \<lparr>data = \<lparr>payload_ID = a, payload_Sig = b\<rparr>, savedError = False\<rparr>"
    by (subst object.simps) (simp add: fieldByName_names literalStore_def setField_def)
  then show ?thesis
    by (subst object.simps) (simp add: fieldByName_names literalStore_def setField_def)
qed

lemma Unmarshal_Marshal:
  assumes "validUTF8 (payload_ID d)" and "validUTF8 (payload_Sig d)"
  shows "Unmarshal (Marshal d) = Some d"
  unfolding Unmarshal_def lex_Marshal[OF assms]
  by (simp add: checkValid_members object_members)

lemma DecodePayload_EncodePayload:
  assumes "validUTF8 a" and "validUTF8 b"
  shows "EncodePayload a b = Inr (EncodeToString (Marshal \<lparr>payload_ID = a, payload_Sig = b\<rparr>))"
    and "DecodePayload (EncodeToString (Marshal \<lparr>payload_ID = a, payload_Sig = b\<rparr>))
          = Inr \<lparr>payload_ID = a, payload_Sig = b\<rparr>"
proof -
  show "EncodePayload a b = Inr (EncodeToString (Marshal \<lparr>payload_ID = a, payload_Sig = b\<rparr>))"
    by (simp add: EncodePayload_def)
  have "Unmarshal (Marshal \<lparr>payload_ID = a, payload_Sig = b\<rparr>) = Some \<lparr>payload_ID = a, payload_Sig = b\<rparr>"
    by (rule Unmarshal_Marshal) (simp_all add: assms)
  then show "DecodePayload (EncodeToString (Marshal \<lparr>payload_ID = a, payload_Sig = b\<rparr>))
          = Inr \<lparr>payload_ID = a, payload_Sig = b\<rparr>"
    by (simp add: DecodePayload_def DecodeString_EncodeToString)
qed

section \<open>Identifiers and signatures as text\<close>

text \<open>
  What \<open>Generate\<close> puts in a payload is ASCII: the identifier in hexadecimal and the
  signature in base64. \<open>uuid.Parse\<close> reads back what \<open>String\<close> writes.
\<close>

lemma validUTF8_ASCII: "isASCII s \<Longrightarrow> validUTF8 s"
  by (induction s) (simp_all add: isASCII_def)

lemma encodeURL_ASCII: "n < 64 \<Longrightarrow> (of_char (encodeURL ! n) :: nat) < 128"
  by (erule below_64_cases) (simp add: upt_rec encodeURL_def)

lemma EncodeToString_ASCII: "isASCII (EncodeToString bs)"
  by (induction bs rule: EncodeToString.induct) (simp_all add: isASCII_def Let_def encodeURL_ASCII)

lemma hexdigit_ASCII: "k < 16 \<Longrightarrow> (of_char (hexdigit k) :: nat) < 128"
  by (erule below_16_cases) (simp add: upt_rec hexdigit_def)

lemma nibble_bound: "(of_char c :: nat) div 16 < 16"
proof -
  have "(of_char c :: nat) < 16 * 16" by simp
  then show ?thesis by (rule less_mult_imp_div_less)
qed

lemma hex_byte_ASCII: "isASCII (hex_byte c)"
  by (simp add: hex_byte_def isASCII_def hexdigit_ASCII nibble_bound)

lemma isASCII_Cons: "isASCII (c # cs) = ((of_char c :: nat) < 128 \<and> isASCII cs)"
  by (simp add: isASCII_def)

lemma isASCII_append: "isASCII (xs @ ys) = (isASCII xs \<and> isASCII ys)"
  by (simp add: isASCII_def)

lemma hex_Encode_ASCII: "isASCII (hex_Encode bs)"
proof (induction bs)
  case Nil
  show ?case by (simp add: hex_Encode_def isASCII_def)
next
  case (Cons b bs)
  have "hex_Encode (b # bs) = hex_byte b @ hex_Encode bs" by (simp add: hex_Encode_def)
  with Cons show ?case by (simp add: isASCII_append hex_byte_ASCII)
qed

lemma uuid_String_ASCII: "isASCII (uuid_String u)"
  by (simp add: uuid_String_def isASCII_append isASCII_Cons hex_Encode_ASCII)

lemma xtob_hex_byte:
  "xtob (hexdigit (of_char c div 16)) (hexdigit (of_char c mod 16)) = Some c"
proof -
  have "(of_char c :: nat) div 16 < 16" by (rule nibble_bound)
  moreover have "(of_char c :: nat) mod 16 < 16" by simp
  moreover have "char_of ((of_char c :: nat) div 16 * 16 + of_char c mod 16) = c" by simp
  ultimately show ?thesis by (simp add: xtob_def xvalue_hexdigit)
qed

lemma length16:
  assumes "length (u :: 'a list) = 16"
  obtains a0 a1 a2 a3 a4 a5 a6 a7 a8 a9 a10 a11 a12 a13 a14 a15
  where "u = [a0, a1, a2, a3, a4, a5, a6, a7, a8, a9, a10, a11, a12, a13, a14, a15]"
proof -
  from assms have "\<exists>a0 a1 a2 a3 a4 a5 a6 a7 a8 a9 a10 a11 a12 a13 a14 a15.
      u = [a0, a1, a2, a3, a4, a5, a6, a7, a8, a9, a10, a11, a12, a13, a14, a15]"
    by (simp add: numeral_eq_Suc length_Suc_conv) blast
  with that show thesis by blast
qed

lemma uuid_Parse_String:
  assumes "length u = 16"
  shows "uuid_Parse (uuid_String u) = Some u"
proof -
  from assms obtain a0 a1 a2 a3 a4 a5 a6 a7 a8 a9 a10 a11 a12 a13 a14 a15
    where u: "u = [a0, a1, a2, a3, a4, a5, a6, a7, a8, a9, a10, a11, a12, a13, a14, a15]"
    by (rule length16)
  show ?thesis
    unfolding u
    by (simp add: uuid_Parse_def uuid_String_def hex_Encode_def hex_byte_def parse_hyphenated_def
        xtob_hex_byte)
qed

lemma EncodePayload_signed:
  "EncodePayload (uuid_String tid) (Signer_Sign H (NewSigner k) tid) = Inr (signedPayload H k tid)"
  by (simp add: EncodePayload_def signedPayload_def)

lemma DecodePayload_signed:
  "DecodePayload (signedPayload H k tid) =
     Inr \<lparr>payload_ID = uuid_String tid, payload_Sig = Signer_Sign H (NewSigner k) tid\<rparr>"
  unfolding signedPayload_def
  by (rule DecodePayload_EncodePayload(2))
     (simp_all add: validUTF8_ASCII uuid_String_ASCII Signer_Sign_def EncodeToString_ASCII)

section \<open>Verify: the order of the checks\<close>

lemma Verify_check_fetch:
  assumes "secretKey \<noteq> []" and "DecodePayload encoded = Inr d"
    and "uuid_Parse (payload_ID d) = Some tid"
    and "Signer_Verify H (NewSigner secretKey) tid (payload_Sig d)"
  shows "Verify_check H m now secretKey encoded s =
     (case Get (store m) s tid of
        (Inl err, s') \<Rightarrow> (Inl err, s')
      | (Inr token, s') \<Rightarrow>
          if ExpiresAt token < now then (Inl ErrExpired, s')
          else if Used token then (Inl ErrUsed, s')
          else (Inr (tid, token), s'))"
  using assms by (simp add: Verify_check_def)

lemma Verify_signed:
  assumes "k \<noteq> []" and "length tid = 16"
  shows "Verify_check H m now k (signedPayload H k tid) s =
     (case Get (store m) s tid of
        (Inl err, s') \<Rightarrow> (Inl err, s')
      | (Inr token, s') \<Rightarrow>
          if ExpiresAt token < now then (Inl ErrExpired, s')
          else if Used token then (Inl ErrUsed, s')
          else (Inr (tid, token), s'))"
  by (rule Verify_check_fetch[OF assms(1) DecodePayload_signed])
     (simp_all add: uuid_Parse_String assms(2) Signer_Verify_def)

lemma exampleID_length: "length exampleID = 16"
  by (simp add: exampleID_def)

lemma example_Get:
  "Get (store exampleManager) [exampleID \<mapsto> t] exampleID = (Inr t, [exampleID \<mapsto> t])"
  by (simp add: exampleManager_def memoryStore_def MemoryStore_Get_def)

text \<open>
  C4. Once Verify has fetched the stored token, a clock reading past the token's
  ExpiresAt makes it fail with Expired, whatever the token's Used flag: the expiry check
  comes before the used check, so a token that is both expired and used reports
  Expired.
\<close>

theorem Verify_expired_before_used:
  assumes "secretKey \<noteq> []" and "DecodePayload encoded = Inr d"
    and "uuid_Parse (payload_ID d) = Some tid"
    and "Signer_Verify H (NewSigner secretKey) tid (payload_Sig d)"
    and fetched: "Get (store m) s tid = (Inr t, s')"
    and past: "ExpiresAt t < now"
  shows "Verify H m now secretKey encoded s = (Inl ErrExpired, s')"
proof -
  have "Verify_check H m now secretKey encoded s = (Inl ErrExpired, s')"
    unfolding Verify_check_fetch[OF assms(1-4)] using fetched past by simp
  then show ?thesis by (simp add: Verify_def)
qed

theorem Verify_expired_before_used_witness:
  "Used (exampleToken 100 True) \<and> ExpiresAt (exampleToken 100 True) < 101 \<and>
   Verify exampleMac exampleManager 101 ''s'' (signedPayload exampleMac ''s'' exampleID)
     [exampleID \<mapsto> exampleToken 100 True]
   = (Inl ErrExpired, [exampleID \<mapsto> exampleToken 100 True])"
proof -
  have "Verify exampleMac exampleManager 101 ''s'' (signedPayload exampleMac ''s'' exampleID)
     [exampleID \<mapsto> exampleToken 100 True]
   = (Inl ErrExpired, [exampleID \<mapsto> exampleToken 100 True])"
    by (rule Verify_expired_before_used[OF _ DecodePayload_signed _ _ example_Get])
       (simp_all add: uuid_Parse_String exampleID_length Signer_Verify_def exampleToken_def)
  then show ?thesis by (simp add: exampleToken_def)
qed

text \<open>
  C10. The expiry comparison is strict: with the clock exactly at the token's ExpiresAt
  Verify does not report Expired. For a stored, unused token the outcome is then what
  MarkUsed decides, and the call succeeds, returning the token marked used, with the
  in-memory store and with the cache-backed store (when the server is reached and still
  holds the key).
\<close>

theorem Verify_at_expiry_instant:
  fixes m :: "('s, 'r) Manager" and mm :: "(MemoryStore, 'p) Manager" and mr :: "(Redis, 'q) Manager"
  assumes "secretKey \<noteq> []" and "DecodePayload encoded = Inr d"
    and "uuid_Parse (payload_ID d) = Some tid"
    and "Signer_Verify H (NewSigner secretKey) tid (payload_Sig d)"
    and unused: "\<not> Used t" and at: "ExpiresAt t = now"
  shows "(Get (store m) s tid = (Inr t, s') \<longrightarrow>
            Verify H m now secretKey encoded s = Verify_mark m tid t s')
       \<and> (store mm = memoryStore \<and> ms tid = Some t \<longrightarrow>
            Verify H mm now secretKey encoded ms
              = (Inr (t\<lparr>Used := True\<rparr>), ms(tid \<mapsto> t\<lparr>Used := True\<rparr>)))
       \<and> (store mr = redisStore st \<and> online srv \<and> redis_GET srv (RedisStore_key st tid) = Some t \<longrightarrow>
            fst (Verify H mr now secretKey encoded srv) = Inr (t\<lparr>Used := True\<rparr>))"
proof (intro conjI impI)
  have chk: "Verify_check H m now secretKey encoded s = (Inr (tid, t), s')"
    if "Get (store m) s tid = (Inr t, s')" for m :: "('a, 'b) Manager" and s s'
    unfolding Verify_check_fetch[OF assms(1-4)] using that unused at by simp
  show "Verify H m now secretKey encoded s = Verify_mark m tid t s'"
    if "Get (store m) s tid = (Inr t, s')"
    using chk[OF that] by (simp add: Verify_def)
  show "Verify H mm now secretKey encoded ms
      = (Inr (t\<lparr>Used := True\<rparr>), ms(tid \<mapsto> t\<lparr>Used := True\<rparr>))"
    if h: "store mm = memoryStore \<and> ms tid = Some t"
  proof -
    from h have "Get (store mm) ms tid = (Inr t, ms)"
      by (simp add: memoryStore_def MemoryStore_Get_def)
    from chk[OF this] have "Verify H mm now secretKey encoded ms = Verify_mark mm tid t ms"
      by (simp add: Verify_def)
    with h show ?thesis
      by (simp add: Verify_mark_def memoryStore_def MemoryStore_MarkUsed_def)
  qed
  show "fst (Verify H mr now secretKey encoded srv) = Inr (t\<lparr>Used := True\<rparr>)"
    if h: "store mr = redisStore st \<and> online srv \<and> redis_GET srv (RedisStore_key st tid) = Some t"
  proof -
    from h have "Get (store mr) srv tid = (Inr t, srv)"
      by (simp add: redisStore_def RedisStore_Get_def)
    from chk[OF this] have v: "Verify H mr now secretKey encoded srv = Verify_mark mr tid t srv"
      by (simp add: Verify_def)
    from h RedisStore_MarkUsed_contract(3)[of srv st tid t] unused
    have "fst (RedisStore_MarkUsed st srv tid) = None" by simp
    then have "fst (Verify_mark mr tid t srv) = Inr (t\<lparr>Used := True\<rparr>)"
      using h by (cases "RedisStore_MarkUsed st srv tid") (simp add: Verify_mark_def redisStore_def)
    with v show ?thesis by simp
  qed
qed

theorem Verify_at_expiry_instant_witness:
  "\<not> Used (exampleToken 100 False) \<and> ExpiresAt (exampleToken 100 False) = 100 \<and>
   Verify exampleMac exampleManager 100 ''s'' (signedPayload exampleMac ''s'' exampleID)
     [exampleID \<mapsto> exampleToken 100 False]
   = (Inr (exampleToken 100 True), [exampleID \<mapsto> exampleToken 100 True])"
proof -
  have u: "\<not> Used (exampleToken 100 False)" "ExpiresAt (exampleToken 100 False) = 100"
    by (simp_all add: exampleToken_def)
  have st: "store exampleManager = memoryStore
      \<and> [exampleID \<mapsto> exampleToken 100 False] exampleID = Some (exampleToken 100 False)"
    by (simp add: exampleManager_def)
  have k: "''s'' \<noteq> []" by simp
  have p: "uuid_Parse (payload_ID \<lparr>payload_ID = uuid_String exampleID,
      payload_Sig = Signer_Sign exampleMac (NewSigner ''s'') exampleID\<rparr>) = Some exampleID"
    by (simp add: uuid_Parse_String exampleID_length)
  have g: "Signer_Verify exampleMac (NewSigner ''s'') exampleID
      (payload_Sig \<lparr>payload_ID = uuid_String exampleID,
         payload_Sig = Signer_Sign exampleMac (NewSigner ''s'') exampleID\<rparr>)"
    by (simp add: Signer_Verify_def)
  from Verify_at_expiry_instant[OF k DecodePayload_signed p g u, where mm = exampleManager
        and ms = "[exampleID \<mapsto> exampleToken 100 False]",
      THEN conjunct2, THEN conjunct1, rule_format, OF st]
  have v: "Verify exampleMac exampleManager 100 ''s'' (signedPayload exampleMac ''s'' exampleID)
            [exampleID \<mapsto> exampleToken 100 False]
          = (Inr ((exampleToken 100 False)\<lparr>Used := True\<rparr>),
             [exampleID \<mapsto> exampleToken 100 False](exampleID \<mapsto> (exampleToken 100 False)\<lparr>Used := True\<rparr>))" .
  have e1: "(exampleToken 100 False)\<lparr>Used := True\<rparr> = exampleToken 100 True"
    by (simp add: exampleToken_def)
  have e2: "[exampleID \<mapsto> exampleToken 100 False](exampleID \<mapsto> exampleToken 100 True)
      = [exampleID \<mapsto> exampleToken 100 True]"
    by simp
  from v have "Verify exampleMac exampleManager 100 ''s'' (signedPayload exampleMac ''s'' exampleID)
            [exampleID \<mapsto> exampleToken 100 False]
          = (Inr (exampleToken 100 True), [exampleID \<mapsto> exampleToken 100 True])"
    unfolding e1 e2 .
  with u show ?thesis by blast
qed

lemma EncodeToString_not_single: "EncodeToString bs \<noteq> [c]"
  by (cases bs rule: EncodeToString.cases) (simp_all add: Let_def)

lemma uuid_String_exampleID: "uuid_String exampleID = ''30313233-3435-3637-3839-616263646566''"
  by (simp add: uuid_String_def exampleID_def hex_Encode_def hex_byte_def hexdigit_def)

lemma Marshal_forged:
  "Marshal \<lparr>payload_ID = ''30313233-3435-3637-3839-616263646566'', payload_Sig = ''x''\<rparr> =
     [CHR ''{'', CHR 0x22, CHR ''i'', CHR ''d'', CHR 0x22, CHR '':'', CHR 0x22] @
     ''30313233-3435-3637-3839-616263646566'' @
     [CHR 0x22, CHR '','', CHR 0x22, CHR ''s'', CHR ''i'', CHR ''g'', CHR 0x22, CHR '':'', CHR 0x22,
      CHR ''x'', CHR 0x22, CHR ''}'']"
  by (simp add: Marshal_def appendString_def htmlSafe_def)

lemma forgedPayload_eq:
  "forgedPayload = EncodeToString (Marshal \<lparr>payload_ID = uuid_String exampleID, payload_Sig = ''x''\<rparr>)"
  unfolding uuid_String_exampleID Marshal_forged
  by (simp add: forgedPayload_def encodeURL_def Let_def)


lemma DecodePayload_forged:
  "DecodePayload forgedPayload = Inr \<lparr>payload_ID = uuid_String exampleID, payload_Sig = ''x''\<rparr>"
  unfolding forgedPayload_eq
  by (rule DecodePayload_EncodePayload(2)) (simp_all add: validUTF8_ASCII uuid_String_ASCII)

lemma forged_signature_wrong: "\<not> Signer_Verify H (NewSigner k) tid ''x''"
  by (simp add: Signer_Verify_def Signer_Sign_def EncodeToString_not_single)

text \<open>
  C3. A payload whose signature is not the HMAC of its identifier under the secret
  passed to Verify makes Verify fail with BadSignature, whatever the store holds, and
  with no store lookup. This holds for a secret that is not empty. Verify first refuses
  an empty secret, before it decodes anything: then the error is that the secret key is
  required, not BadSignature.
\<close>

theorem Verify_bad_signature:
  assumes "secretKey \<noteq> []" and "DecodePayload encoded = Inr d"
    and "uuid_Parse (payload_ID d) = Some tid"
    and "\<not> Signer_Verify H (NewSigner secretKey) tid (payload_Sig d)"
  shows "Verify H m now secretKey encoded s = (Inl ErrBadSignature, s)"
proof -
  have "Verify_check H m now secretKey encoded s = (Inl ErrBadSignature, s)"
    using assms by (simp add: Verify_check_def)
  then show ?thesis by (simp add: Verify_def)
qed

theorem Verify_bad_signature_witness:
  "Verify exampleMac exampleManager 50 ''s'' forgedPayload [exampleID \<mapsto> exampleToken 100 True]
     = (Inl ErrBadSignature, [exampleID \<mapsto> exampleToken 100 True])
   \<and> Verify exampleMac exampleManager 50 ''s'' forgedPayload Map.empty
     = (Inl ErrBadSignature, Map.empty)"
proof -
  have "Verify exampleMac exampleManager 50 ''s'' forgedPayload s = (Inl ErrBadSignature, s)" for s
    by (rule Verify_bad_signature[OF _ DecodePayload_forged])
       (simp_all add: uuid_Parse_String exampleID_length forged_signature_wrong)
  then show ?thesis by simp
qed

theorem Verify_empty_secret_counterexample:
  "DecodePayload forgedPayload = Inr \<lparr>payload_ID = uuid_String exampleID, payload_Sig = ''x''\<rparr>
   \<and> uuid_Parse (uuid_String exampleID) = Some exampleID
   \<and> \<not> Signer_Verify exampleMac (NewSigner []) exampleID ''x''
   \<and> Verify exampleMac exampleManager 50 [] forgedPayload Map.empty
       = (Inl (ErrOther ''secret key is required''), Map.empty)
   \<and> fst (Verify exampleMac exampleManager 50 [] forgedPayload Map.empty) \<noteq> Inl ErrBadSignature"
proof -
  have v: "Verify exampleMac exampleManager 50 [] forgedPayload Map.empty
       = (Inl (ErrOther ''secret key is required''), Map.empty)"
    by (simp add: Verify_def Verify_check_def)
  then have "fst (Verify exampleMac exampleManager 50 [] forgedPayload Map.empty) \<noteq> Inl ErrBadSignature"
    by simp
  with v DecodePayload_forged forged_signature_wrong[of exampleMac "[]" exampleID]
    uuid_Parse_String[OF exampleID_length]
  show ?thesis by blast
qed

section \<open>Generate: time to live and rate limit\<close>

lemma Generate_issues:
  assumes "secretKey \<noteq> []" and "userID \<noteq> []" and "action \<noteq> []" and "0 < ttl"
    and "checkRate m r userID = (None, r')"
    and "Save (store m) s
           \<lparr>ID = newID, UserID = userID, Action = action, ExpiresAt = now + clampTTL m ttl, Used = False\<rparr>
           (clampTTL m ttl) = (None, s')"
  shows "Generate H m now newID secretKey userID action ttl (s, r) =
     (Inr (\<lparr>ID = newID, UserID = userID, Action = action, ExpiresAt = now + clampTTL m ttl,
            Used = False\<rparr>, signedPayload H secretKey newID), s', r')"
  using assms by (simp add: Generate_def Let_def EncodePayload_signed)

lemma Generate_rejected:
  assumes "secretKey \<noteq> []" and "userID \<noteq> []" and "action \<noteq> []" and "0 < ttl"
    and "checkRate m r userID = (Some err, r')"
  shows "Generate H m now newID secretKey userID action ttl (s, r) = (Inl err, s, r')"
  using assms by (simp add: Generate_def)

lemma clampTTL_positive_bounds:
  assumes "0 < minTTL m" and "0 < maxTTL m"
  shows "clampTTL m ttl = max (minTTL m) (min (maxTTL m) ttl)"
  using assms by (simp add: clampTTL_def Let_def max_def min_def)

text \<open>
  C5. When minTTL and maxTTL are configured positive, Generate clamps the requested
  ttl before computing ExpiresAt, the maxTTL clamp first and the minTTL clamp second:
  the record it gives the store to persist, and returns, expires at the clock reading
  plus the clamped ttl, and the clamped ttl is the time to live it gives the store.
  When moreover
  minTTL is at most maxTTL the clamped ttl lies in [minTTL, maxTTL]. The bounds are
  applied only when positive: a negative bound is not applied, as a bound of zero is
  not.
\<close>

theorem Generate_clamps_ttl:
  fixes m :: "('s, 'r) Manager" and now :: Time and newID :: uuid
  assumes "secretKey \<noteq> []" and "userID \<noteq> []" and "action \<noteq> []" and "0 < ttl"
    and rate: "checkRate m r userID = (None, r')"
    and pos: "0 < minTTL m" "0 < maxTTL m"
  defines "ttl' \<equiv> max (minTTL m) (min (maxTTL m) ttl)"
  defines "tok \<equiv> \<lparr>ID = newID, UserID = userID, Action = action, ExpiresAt = now + ttl', Used = False\<rparr>"
  shows "Generate H m now newID secretKey userID action ttl (s, r) =
           (case Save (store m) s tok ttl' of
              (Some err, s') \<Rightarrow> (Inl err, s', r')
            | (None, s') \<Rightarrow> (Inr (tok, signedPayload H secretKey newID), s', r'))
         \<and> (minTTL m \<le> maxTTL m \<longrightarrow> minTTL m \<le> ttl' \<and> ttl' \<le> maxTTL m)"
proof (intro conjI)
  have c: "clampTTL m ttl = ttl'"
    unfolding ttl'_def by (rule clampTTL_positive_bounds[OF pos])
  show g: "Generate H m now newID secretKey userID action ttl (s, r) =
           (case Save (store m) s tok ttl' of
              (Some err, s') \<Rightarrow> (Inl err, s', r')
            | (None, s') \<Rightarrow> (Inr (tok, signedPayload H secretKey newID), s', r'))"
    using assms(1-4) rate
    by (simp add: Generate_def Let_def EncodePayload_signed c tok_def split: prod.splits option.splits)
  show "minTTL m \<le> maxTTL m \<longrightarrow> minTTL m \<le> ttl' \<and> ttl' \<le> maxTTL m"
    unfolding ttl'_def by simp
qed

lemma clampManager_fields:
  "store (clampManager lo hi) = memoryStore" "minTTL (clampManager lo hi) = lo"
  "maxTTL (clampManager lo hi) = hi" "checkRate (clampManager lo hi) r u = (None, r)"
  by (simp_all add: clampManager_def exampleManager_def checkRate_def)

theorem Generate_clamps_ttl_witness:
  "Generate exampleMac (clampManager (10 * Second) (600 * Second)) 1000 exampleID ''s'' ''u1'' ''login''
       (1 * Second) (Map.empty, ())
     = (Inr (exampleToken (1000 + 10 * Second) False, signedPayload exampleMac ''s'' exampleID),
        [exampleID \<mapsto> exampleToken (1000 + 10 * Second) False], ())
   \<and> Generate exampleMac (clampManager (10 * Second) (600 * Second)) 1000 exampleID ''s'' ''u1'' ''login''
       (3600 * Second) (Map.empty, ())
     = (Inr (exampleToken (1000 + 600 * Second) False, signedPayload exampleMac ''s'' exampleID),
        [exampleID \<mapsto> exampleToken (1000 + 600 * Second) False], ())"
proof -
  have p: "(0::int) < 10 * Second" "(0::int) < 600 * Second" "(0::int) < 1 * Second" "(0::int) < 3600 * Second"
    by (simp_all add: Second_def)
  note g = Generate_clamps_ttl[of "''s''" "''u1''" "''login''" _ "clampManager (10 * Second) (600 * Second)"
      "()" "()" exampleMac 1000 exampleID Map.empty, THEN conjunct1, unfolded clampManager_fields]
  have a: "max (10 * Second) (min (600 * Second) (1 * Second)) = 10 * Second"
    and b: "max (10 * Second) (min (600 * Second) (3600 * Second)) = 600 * Second"
    by (simp_all add: Second_def)
  from g[OF _ _ _ p(3) refl p(1) p(2)] g[OF _ _ _ p(4) refl p(1) p(2)]
  show ?thesis
    unfolding a b exampleToken_def by (simp add: memoryStore_def MemoryStore_Save_def)
qed

theorem Generate_negative_bounds_counterexample:
  "minTTL (clampManager (- 600 * Second) (- 10 * Second)) \<noteq> 0
   \<and> maxTTL (clampManager (- 600 * Second) (- 10 * Second)) \<noteq> 0
   \<and> Generate exampleMac (clampManager (- 600 * Second) (- 10 * Second)) 1000 exampleID ''s'' ''u1''
        ''login'' (1 * Second) (Map.empty, ())
      = (Inr (exampleToken (1000 + 1 * Second) False, signedPayload exampleMac ''s'' exampleID),
         [exampleID \<mapsto> exampleToken (1000 + 1 * Second) False], ())
   \<and> \<not> (- 600 * Second \<le> 1 * Second \<and> 1 * Second \<le> - 10 * Second)"
proof -
  have c: "clampTTL (clampManager (- 600 * Second) (- 10 * Second)) (1 * Second) = 1 * Second"
    by (simp add: clampTTL_def clampManager_fields Second_def)
  have "Generate exampleMac (clampManager (- 600 * Second) (- 10 * Second)) 1000 exampleID ''s'' ''u1''
        ''login'' (1 * Second) (Map.empty, ())
      = (Inr (\<lparr>ID = exampleID, UserID = ''u1'', Action = ''login'',
               ExpiresAt = 1000 + clampTTL (clampManager (- 600 * Second) (- 10 * Second)) (1 * Second),
               Used = False\<rparr>, signedPayload exampleMac ''s'' exampleID),
         [exampleID \<mapsto> \<lparr>ID = exampleID, UserID = ''u1'', Action = ''login'',
               ExpiresAt = 1000 + clampTTL (clampManager (- 600 * Second) (- 10 * Second)) (1 * Second),
               Used = False\<rparr>], ())"
    by (rule Generate_issues)
       (simp_all add: clampManager_fields Second_def memoryStore_def MemoryStore_Save_def)
  then have "Generate exampleMac (clampManager (- 600 * Second) (- 10 * Second)) 1000 exampleID ''s'' ''u1''
        ''login'' (1 * Second) (Map.empty, ())
      = (Inr (exampleToken (1000 + 1 * Second) False, signedPayload exampleMac ''s'' exampleID),
         [exampleID \<mapsto> exampleToken (1000 + 1 * Second) False], ())"
    unfolding c exampleToken_def .
  then show ?thesis by (simp add: clampManager_fields Second_def)
qed


lemma checkRate_withLimiter:
  "0 < rateLimit m \<Longrightarrow> checkRate (withLimiter m t) r u =
     MemoryRateLimiter_CheckAndIncrement t r u (rateLimit m) (rateWindow m)"
  by (simp add: checkRate_def withLimiter_def memoryRateLimiter_def)

lemma Generate_limited_ok:
  assumes "k \<noteq> []" and "u \<noteq> []" and "a \<noteq> []" and "0 < ttl" and "0 < rateLimit m"
    and "MemoryRateLimiter_CheckAndIncrement t r u (rateLimit m) (rateWindow m) = (None, r')"
    and "\<And>s tok d. fst (Save (store m) s tok d) = None"
  shows "isOk (fst (Generate H (withLimiter m t) now newID k u a ttl (s, r)))"
    and "snd (snd (Generate H (withLimiter m t) now newID k u a ttl (s, r))) = r'"
proof -
  define tok where "tok = \<lparr>ID = newID, UserID = u, Action = a,
      ExpiresAt = now + clampTTL (withLimiter m t) ttl, Used = False\<rparr>"
  obtain s' where sv: "Save (store (withLimiter m t)) s tok (clampTTL (withLimiter m t) ttl) = (None, s')"
    using assms(7)[of s tok "clampTTL (withLimiter m t) ttl"]
    by (cases "Save (store m) s tok (clampTTL (withLimiter m t) ttl)") (simp add: withLimiter_def)
  have cr: "checkRate (withLimiter m t) r u = (None, r')"
    using assms(5,6) by (simp add: checkRate_withLimiter)
  from Generate_issues[OF assms(1-4) cr sv[unfolded tok_def], of H]
  show "isOk (fst (Generate H (withLimiter m t) now newID k u a ttl (s, r)))"
    and "snd (snd (Generate H (withLimiter m t) now newID k u a ttl (s, r))) = r'"
    by (simp_all add: isOk_def)
qed

lemma Generate_limited_rejected:
  assumes "k \<noteq> []" and "u \<noteq> []" and "a \<noteq> []" and "0 < ttl" and "0 < rateLimit m"
    and "MemoryRateLimiter_CheckAndIncrement t r u (rateLimit m) (rateWindow m) = (Some err, r')"
  shows "Generate H (withLimiter m t) now newID k u a ttl (s, r) = (Inl err, s, r')"
  by (rule Generate_rejected[OF assms(1-4)]) (simp add: checkRate_withLimiter assms(5,6))

text \<open>
  C7. With the in-memory rate limiter, limit 2 and window one hour: of three
  consecutive Generate calls for one subject within the window the first two succeed
  and the third fails with RateLimitExceeded; a call after the window has elapsed
  succeeds again; and the rejected call leaves the store as it was, so no token is
  persisted by it (it leaves the limiter's count as it was, too). The subject has no
  window open at the first call, and the store is any store whose Save does not fail.
\<close>

theorem Generate_rate_limited:
  fixes m :: "('s, MemoryRateLimiter) Manager" and H :: mac and s0 :: 's
    and n1 n2 n3 n4 t1 t2 t3 t4 :: Time and id1 id2 id3 id4 :: uuid
  assumes "k \<noteq> []" and "u \<noteq> []" and "a \<noteq> []" and "0 < ttl"
    and lim: "rateLimit m = 2" and win: "rateWindow m = Hour"
    and saves: "\<And>s tok d. fst (Save (store m) s tok d) = None"
    and fresh: "case r0 u of None \<Rightarrow> True | Some ul \<Rightarrow> windowEnd ul < t1"
    and within: "t2 \<le> t1 + Hour" "t3 \<le> t1 + Hour"
    and after: "t1 + Hour < t4"
  defines "c1 \<equiv> Generate H (withLimiter m t1) n1 id1 k u a ttl (s0, r0)"
  defines "c2 \<equiv> Generate H (withLimiter m t2) n2 id2 k u a ttl (snd c1)"
  defines "c3 \<equiv> Generate H (withLimiter m t3) n3 id3 k u a ttl (snd c2)"
  defines "c4 \<equiv> Generate H (withLimiter m t4) n4 id4 k u a ttl (snd c3)"
  shows "isOk (fst c1) \<and> isOk (fst c2) \<and> c3 = (Inl ErrRateLimitExceeded, snd c2) \<and> isOk (fst c4)"
proof -
  have pos: "0 < rateLimit m" by (simp add: lim)
  define r1 where "r1 = r0(u \<mapsto> \<lparr>count = 1, windowEnd = t1 + Hour\<rparr>)"
  define r2 where "r2 = r0(u \<mapsto> \<lparr>count = 2, windowEnd = t1 + Hour\<rparr>)"
  define r4 where "r4 = r0(u \<mapsto> \<lparr>count = 1, windowEnd = t4 + Hour\<rparr>)"
  have l1: "MemoryRateLimiter_CheckAndIncrement t1 r0 u (rateLimit m) (rateWindow m) = (None, r1)"
    using fresh by (cases "r0 u") (simp_all add: MemoryRateLimiter_CheckAndIncrement_def r1_def win)
  have l2: "MemoryRateLimiter_CheckAndIncrement t2 r1 u (rateLimit m) (rateWindow m) = (None, r2)"
    using within(1) by (simp add: MemoryRateLimiter_CheckAndIncrement_def r1_def r2_def lim)
  have l3: "MemoryRateLimiter_CheckAndIncrement t3 r2 u (rateLimit m) (rateWindow m)
      = (Some ErrRateLimitExceeded, r2)"
    using within(2) by (simp add: MemoryRateLimiter_CheckAndIncrement_def r2_def lim)
  have l4: "MemoryRateLimiter_CheckAndIncrement t4 r2 u (rateLimit m) (rateWindow m) = (None, r4)"
    using after by (simp add: MemoryRateLimiter_CheckAndIncrement_def r2_def r4_def win)
  obtain s1 where sn1: "snd c1 = (s1, r1)"
    using Generate_limited_ok(2)[OF assms(1-4) pos l1 saves, of H n1 id1 s0]
    by (cases "snd c1") (simp add: c1_def)
  have ok1: "isOk (fst c1)"
    unfolding c1_def by (rule Generate_limited_ok(1)[OF assms(1-4) pos l1 saves])
  obtain s2 where sn2: "snd c2 = (s2, r2)"
    using Generate_limited_ok(2)[OF assms(1-4) pos l2 saves, of H n2 id2 s1]
    by (cases "snd c2") (simp add: c2_def sn1)
  have ok2: "isOk (fst c2)"
    unfolding c2_def sn1 by (rule Generate_limited_ok(1)[OF assms(1-4) pos l2 saves])
  have rej: "c3 = (Inl ErrRateLimitExceeded, snd c2)"
    unfolding c3_def sn2 by (rule Generate_limited_rejected[OF assms(1-4) pos l3])
  have ok4: "isOk (fst c4)"
    unfolding c4_def rej sn2 snd_conv
    by (rule Generate_limited_ok(1)[OF assms(1-4) pos l4 saves])
  from ok1 ok2 rej ok4 show ?thesis by blast
qed


theorem Generate_rate_limited_witness:
  "isOk (fst (limitedCall 0 ''0123456789abcdef'' (Map.empty, Map.empty)))
   \<and> isOk (fst (limitedCall (1800 * Second) ''1123456789abcdef''
              (snd (limitedCall 0 ''0123456789abcdef'' (Map.empty, Map.empty)))))
   \<and> limitedCall Hour ''2123456789abcdef''
         (snd (limitedCall (1800 * Second) ''1123456789abcdef''
              (snd (limitedCall 0 ''0123456789abcdef'' (Map.empty, Map.empty)))))
       = (Inl ErrRateLimitExceeded,
          snd (limitedCall (1800 * Second) ''1123456789abcdef''
              (snd (limitedCall 0 ''0123456789abcdef'' (Map.empty, Map.empty)))))
   \<and> isOk (fst (limitedCall (Hour + 1) ''3123456789abcdef''
         (snd (limitedCall Hour ''2123456789abcdef''
           (snd (limitedCall (1800 * Second) ''1123456789abcdef''
              (snd (limitedCall 0 ''0123456789abcdef'' (Map.empty, Map.empty)))))))))"
  unfolding limitedCall_def
  by (rule Generate_rate_limited)
     (simp_all add: limitedManager_def memoryStore_def MemoryStore_Save_def Hour_def Second_def)

section \<open>What MarkUsed leaves unchanged\<close>

lemma MemoryStore_MarkUsed_frame:
  assumes "MemoryStore_MarkUsed s tid = (None, s')"
  shows "\<exists>t. s tid = Some t \<and> s' = s(tid \<mapsto> t\<lparr>Used := True\<rparr>)"
  using assms by (auto simp: MemoryStore_MarkUsed_def split: option.splits)

lemma MemoryStore_MarkUsed_fields:
  assumes "MemoryStore_MarkUsed s tid = (None, s')" and "s tid = Some t"
  shows "\<exists>t'. s' tid = Some t' \<and> ID t' = ID t \<and> UserID t' = UserID t \<and> Action t' = Action t
           \<and> ExpiresAt t' = ExpiresAt t \<and> Used t'"
  using assms by (auto simp: MemoryStore_MarkUsed_def)

text \<open>
  The script rewrites the value with the expiry the key had, as long as \<open>PTTL\<close> is not
  0: the key has no expiry, or its expiry is later than the server's clock.
\<close>

lemma markUsedScript_keeps_expiry:
  assumes live: "redis_lookup srv k = Some e" and unused: "\<not> Used (blob e)"
    and later: "expire e \<noteq> Some (mstime srv)"
  shows "markUsedScript srv k =
     (1, srv\<lparr>db := (db srv)(k \<mapsto> \<lparr>blob = (blob e)\<lparr>Used := True\<rparr>, expire = expire e\<rparr>)\<rparr>)"
proof (cases "expire e")
  case None
  then have "redis_PTTL srv k = - 1" using live by (simp add: redis_PTTL_def)
  then show ?thesis
    using live unused None by (simp add: markUsedScript_def redis_GET_def Let_def redis_SET_def)
next
  case (Some w)
  with live have "\<not> mstime srv > w"
    by (auto simp: redis_lookup_def split: option.splits if_splits)
  with later Some have lt: "mstime srv < w" by simp
  then have "redis_PTTL srv k = w - mstime srv" using live Some by (simp add: redis_PTTL_def)
  then show ?thesis
    using live unused Some lt
    by (simp add: markUsedScript_def redis_GET_def Let_def redis_SET_PX_def)
qed

lemma RedisStore_MarkUsed_keeps_expiry:
  assumes "online srv" and "redis_lookup srv (RedisStore_key st tid) = Some e"
    and "\<not> Used (blob e)" and "expire e \<noteq> Some (mstime srv)"
  shows "RedisStore_MarkUsed st srv tid =
     (None, srv\<lparr>db := (db srv)(RedisStore_key st tid \<mapsto>
                \<lparr>blob = (blob e)\<lparr>Used := True\<rparr>, expire = expire e\<rparr>)\<rparr>)"
  using assms(1) by (simp add: RedisStore_MarkUsed_def markUsedScript_keeps_expiry[OF assms(2-4)])

text \<open>
  C9. A successful MarkUsed changes only the used flag; for the cache-backed store the
  key's remaining time to live is unchanged too. The in-memory store does this, and the
  script does it for the fields of the record, and for the time to live while \<open>PTTL\<close> is
  not 0. In the last millisecond of the key's life \<open>PTTL\<close> answers 0; the script then
  takes the branch written for a key with no expiry and rewrites the value with a plain
  \<open>SET\<close>, which drops the expiry: the key that was about to expire now never does.
\<close>

theorem RedisStore_MarkUsed_drops_expiry:
  "redis_PTTL (lastMillisecond t now) (RedisStore_key (NewRedisStore []) (ID t)) = 0
   \<and> RedisStore_MarkUsed (NewRedisStore []) (lastMillisecond t now) (ID t)
       = (None, (lastMillisecond t now)
                  \<lparr>db := [RedisStore_key (NewRedisStore []) (ID t) \<mapsto>
                            \<lparr>blob = t\<lparr>Used := True\<rparr>, expire = None\<rparr>]\<rparr>)
   \<and> redis_PTTL (snd (RedisStore_MarkUsed (NewRedisStore []) (lastMillisecond t now) (ID t)))
         (RedisStore_key (NewRedisStore []) (ID t)) = - 1"
proof -
  define k where "k = RedisStore_key (NewRedisStore []) (ID t)"
  define srv where "srv = lastMillisecond t now"
  have lk: "redis_lookup srv k = Some \<lparr>blob = t\<lparr>Used := False\<rparr>, expire = Some now\<rparr>"
    by (simp add: srv_def lastMillisecond_def redis_lookup_def k_def)
  have p0: "redis_PTTL srv k = 0"
    by (simp add: redis_PTTL_def lk) (simp add: srv_def lastMillisecond_def)
  have sc: "markUsedScript srv k = (1, redis_SET srv k (t\<lparr>Used := True\<rparr>))"
    by (simp add: markUsedScript_def redis_GET_def lk p0 Let_def)
  have st: "redis_SET srv k (t\<lparr>Used := True\<rparr>)
      = srv\<lparr>db := [k \<mapsto> \<lparr>blob = t\<lparr>Used := True\<rparr>, expire = None\<rparr>]\<rparr>"
    by (simp add: redis_SET_def srv_def lastMillisecond_def k_def)
  have mu: "RedisStore_MarkUsed (NewRedisStore []) srv (ID t)
      = (None, srv\<lparr>db := [k \<mapsto> \<lparr>blob = t\<lparr>Used := True\<rparr>, expire = None\<rparr>]\<rparr>)"
    using sc st by (simp add: RedisStore_MarkUsed_def k_def[symmetric]) (simp add: srv_def lastMillisecond_def)
  have p1: "redis_PTTL (srv\<lparr>db := [k \<mapsto> \<lparr>blob = t\<lparr>Used := True\<rparr>, expire = None\<rparr>]\<rparr>) k = - 1"
    by (simp add: redis_PTTL_def redis_lookup_def)
  from p0 mu p1 show ?thesis unfolding k_def srv_def by simp
qed


section \<open>Single use\<close>

text \<open>
  One call after another: the first Verify of an unused, unexpired token succeeds and
  every later one, while the token is unexpired, fails with Used. This holds for any
  store whose Get returns what is stored and whose MarkUsed sets the flag; here for the
  in-memory store, from the token and payload that Generate returns.
\<close>

lemma Verify_first_memory:
  assumes "k \<noteq> []" and "length tid = 16" and "s tid = Some t" and "\<not> Used t"
    and "now \<le> ExpiresAt t" and "store m = memoryStore"
  shows "Verify H m now k (signedPayload H k tid) s
     = (Inr (t\<lparr>Used := True\<rparr>), s(tid \<mapsto> t\<lparr>Used := True\<rparr>))"
proof -
  have "Verify_check H m now k (signedPayload H k tid) s = (Inr (tid, t), s)"
    unfolding Verify_signed[OF assms(1,2)] using assms(3-6)
    by (simp add: memoryStore_def MemoryStore_Get_def)
  then show ?thesis
    using assms(3,6) by (simp add: Verify_def Verify_mark_def memoryStore_def MemoryStore_MarkUsed_def)
qed

lemma Verify_again_memory:
  assumes "k \<noteq> []" and "length tid = 16" and "s tid = Some t" and "Used t"
    and "now \<le> ExpiresAt t" and "store m = memoryStore"
  shows "Verify H m now k (signedPayload H k tid) s = (Inl ErrUsed, s)"
proof -
  have "Verify_check H m now k (signedPayload H k tid) s = (Inl ErrUsed, s)"
    unfolding Verify_signed[OF assms(1,2)] using assms(3-6)
    by (simp add: memoryStore_def MemoryStore_Get_def)
  then show ?thesis by (simp add: Verify_def)
qed

lemma Generate_then_Verify_twice:
  fixes m :: "(MemoryStore, 'r) Manager"
  assumes "k \<noteq> []" and "u \<noteq> []" and "a \<noteq> []" and "0 < ttl" and "length newID = 16"
    and "checkRate m r u = (None, r')" and "store m = memoryStore"
    and "now1 \<le> now + clampTTL m ttl" and "now2 \<le> now + clampTTL m ttl"
  defines "tok \<equiv> \<lparr>ID = newID, UserID = u, Action = a, ExpiresAt = now + clampTTL m ttl, Used = False\<rparr>"
  shows "Generate H m now newID k u a ttl (s, r) = (Inr (tok, signedPayload H k newID), s(newID \<mapsto> tok), r')"
    and "Verify H m now1 k (signedPayload H k newID) (s(newID \<mapsto> tok))
           = (Inr (tok\<lparr>Used := True\<rparr>), s(newID \<mapsto> tok\<lparr>Used := True\<rparr>))"
    and "Verify H m now2 k (signedPayload H k newID) (s(newID \<mapsto> tok\<lparr>Used := True\<rparr>))
           = (Inl ErrUsed, s(newID \<mapsto> tok\<lparr>Used := True\<rparr>))"
proof -
  show "Generate H m now newID k u a ttl (s, r) = (Inr (tok, signedPayload H k newID), s(newID \<mapsto> tok), r')"
    unfolding tok_def
    by (rule Generate_issues[OF assms(1-4,6)])
       (simp add: assms(7) memoryStore_def MemoryStore_Save_def)
  have "Verify H m now1 k (signedPayload H k newID) (s(newID \<mapsto> tok))
      = (Inr (tok\<lparr>Used := True\<rparr>), (s(newID \<mapsto> tok))(newID \<mapsto> tok\<lparr>Used := True\<rparr>))"
    by (rule Verify_first_memory[OF assms(1,5), where t = tok]) (simp_all add: tok_def assms(7,8))
  then show "Verify H m now1 k (signedPayload H k newID) (s(newID \<mapsto> tok))
           = (Inr (tok\<lparr>Used := True\<rparr>), s(newID \<mapsto> tok\<lparr>Used := True\<rparr>))"
    by simp
  show "Verify H m now2 k (signedPayload H k newID) (s(newID \<mapsto> tok\<lparr>Used := True\<rparr>))
           = (Inl ErrUsed, s(newID \<mapsto> tok\<lparr>Used := True\<rparr>))"
    by (rule Verify_again_memory[OF assms(1,5), where t = "tok\<lparr>Used := True\<rparr>"])
       (simp_all add: tok_def assms(7,9))
qed

text \<open>
  C2. For a token produced by Generate, while it is unexpired the first Verify with
  the returned payload succeeds and returns the token with used set, every later one
  fails with Used, and of concurrent Verify calls on one payload exactly one succeeds.
  With the in-memory store two overlapping calls both succeed: each fetches the token
  unused, and MarkUsed, which does not look at the flag, returns no error to both.
\<close>

theorem overlappingVerify_both_succeed:
  "overlappingVerify H exampleManager 50 ''s'' (signedPayload H ''s'' exampleID)
     [exampleID \<mapsto> exampleToken 100 False]
   = (Inr (exampleToken 100 True), Inr (exampleToken 100 True), [exampleID \<mapsto> exampleToken 100 True])"
proof -
  have chk: "Verify_check H exampleManager 50 ''s'' (signedPayload H ''s'' exampleID)
      [exampleID \<mapsto> exampleToken 100 False]
      = (Inr (exampleID, exampleToken 100 False), [exampleID \<mapsto> exampleToken 100 False])"
    unfolding Verify_signed[of "''s''" exampleID, OF _ exampleID_length, simplified] example_Get
    by (simp add: exampleToken_def)
  have m1: "Verify_mark exampleManager exampleID (exampleToken 100 False) [exampleID \<mapsto> exampleToken 100 False]
      = (Inr (exampleToken 100 True), [exampleID \<mapsto> exampleToken 100 True])"
    by (simp add: Verify_mark_def exampleManager_def memoryStore_def MemoryStore_MarkUsed_def
        exampleToken_def)
  have m2: "Verify_mark exampleManager exampleID (exampleToken 100 False) [exampleID \<mapsto> exampleToken 100 True]
      = (Inr (exampleToken 100 True), [exampleID \<mapsto> exampleToken 100 True])"
    by (simp add: Verify_mark_def exampleManager_def memoryStore_def MemoryStore_MarkUsed_def
        exampleToken_def)
  show ?thesis
    by (simp add: overlappingVerify_def chk m1 m2)
qed


text \<open>
  With the cache-backed store the second of two overlapping calls loses: the script
  finds the flag set and Verify fails with Used.
\<close>

lemma RedisStore_MarkUsed_online:
  "online (snd (RedisStore_MarkUsed st srv tid)) = online srv"
  by (simp add: RedisStore_MarkUsed_def markUsedScript_def redis_SET_def redis_SET_PX_def Let_def
      split: option.splits prod.splits)

lemma overlappingVerify_redis:
  assumes "k \<noteq> []" and "length tid = 16" and "store m = redisStore st" and "online srv"
    and stored: "redis_GET srv (RedisStore_key st tid) = Some t"
    and "\<not> Used t" and "now \<le> ExpiresAt t"
  shows "overlappingVerify H m now k (signedPayload H k tid) srv
     = (Inr (t\<lparr>Used := True\<rparr>), Inl ErrUsed, snd (RedisStore_MarkUsed st srv tid))"
proof -
  define srv1 where "srv1 = snd (RedisStore_MarkUsed st srv tid)"
  have chk: "Verify_check H m now k (signedPayload H k tid) srv = (Inr (tid, t), srv)"
    unfolding Verify_signed[OF assms(1,2)] using assms(3-7)
    by (simp add: redisStore_def RedisStore_Get_def)
  from RedisStore_MarkUsed_contract(3)[OF assms(4) stored assms(6)]
  have a: "RedisStore_MarkUsed st srv tid = (None, srv1)"
    and g1: "redis_GET srv1 (RedisStore_key st tid) = Some (t\<lparr>Used := True\<rparr>)"
    by (simp_all add: srv1_def prod_eq_iff)
  have on1: "online srv1" using RedisStore_MarkUsed_online[of st srv tid] assms(4) by (simp add: srv1_def)
  have b: "RedisStore_MarkUsed st srv1 tid = (Some ErrUsed, srv1)"
    by (rule RedisStore_MarkUsed_contract(2)[OF on1 g1]) simp
  have m1: "Verify_mark m tid t srv = (Inr (t\<lparr>Used := True\<rparr>), srv1)"
    by (simp add: Verify_mark_def assms(3) redisStore_def a)
  have m2: "Verify_mark m tid t srv1 = (Inl ErrUsed, srv1)"
    by (simp add: Verify_mark_def assms(3) redisStore_def b)
  show ?thesis
    by (simp add: overlappingVerify_def chk m1 m2 srv1_def[symmetric])
qed

section \<open>The scanner accepts the texts of values, to a depth\<close>

lemma foldr_max_le: "foldr max xs 0 \<le> b \<longleftrightarrow> (\<forall>x\<in>set xs. x \<le> (b::nat))"
  by (induction xs) auto

lemma joinComma_Cons: "joinComma (x # xs) = x @ concat (map (\<lambda>y. Comma # y) xs)"
  by (induction xs arbitrary: x) auto

lemma depth_JArr_le: "n + depth (JArr vs) \<le> b \<longleftrightarrow> n < b \<and> (\<forall>v\<in>set vs. Suc n + depth v \<le> b)"
proof -
  have "n + depth (JArr vs) \<le> b \<longleftrightarrow> n < b \<and> foldr max (map depth vs) 0 \<le> b - Suc n"
    by auto
  also have "\<dots> \<longleftrightarrow> n < b \<and> (\<forall>v\<in>set vs. Suc n + depth v \<le> b)"
    unfolding foldr_max_le by auto
  finally show ?thesis .
qed

lemma depth_JObj_le:
  "n + depth (JObj ms) \<le> b \<longleftrightarrow> n < b \<and> (\<forall>(k, v)\<in>set ms. Suc n + depth v \<le> b)"
proof -
  have "n + depth (JObj ms) \<le> b \<longleftrightarrow> n < b \<and> foldr max (map (\<lambda>(k, v). depth v) ms) 0 \<le> b - Suc n"
    by auto
  also have "\<dots> \<longleftrightarrow> n < b \<and> (\<forall>(k, v)\<in>set ms. Suc n + depth v \<le> b)"
    unfolding foldr_max_le by auto
  finally show ?thesis .
qed

lemma tokensOf_Cons: "tokensOf v = hd (tokensOf v) # tl (tokensOf v)"
  by (cases v) simp_all

lemma scan_scalar:
  assumes "isScalar t" and "st = stateBeginValue \<or> st = stateBeginValueOrEmpty"
  shows "scan st ps (t # rest) = scan (endOf ps) ps rest"
  using assms by (auto simp: scanStep_def isScalar_def split: token.splits)

lemma scan_close:
  "scan stateEndValue (parseArrayValue # ps) (EndArray # rest) = scan (endOf ps) ps rest"
  "scan stateEndValue (parseObjectValue # ps) (EndObject # rest) = scan (endOf ps) ps rest"
  "scan stateBeginValueOrEmpty (parseArrayValue # ps) (EndArray # rest) = scan (endOf ps) ps rest"
  "scan stateBeginStringOrEmpty (parseObjectKey # ps) (EndObject # rest) = scan (endOf ps) ps rest"
  by (simp_all add: scanStep_def)

lemma scan_sep:
  "scan stateEndValue (parseArrayValue # ps) (Comma # rest) = scan stateBeginValue (parseArrayValue # ps) rest"
  "scan stateEndValue (parseObjectValue # ps) (Comma # rest) = scan stateBeginString (parseObjectKey # ps) rest"
  "scan stateEndValue (parseObjectKey # ps) (Colon # rest) = scan stateBeginValue (parseObjectValue # ps) rest"
  "scan stateBeginString ps (Str k # rest) = scan stateEndValue ps rest"
  "scan stateBeginStringOrEmpty ps (Str k # rest) = scan stateEndValue ps rest"
  by (simp_all add: scanStep_def)

lemma scan_open:
  assumes "st = stateBeginValue \<or> st = stateBeginValueOrEmpty"
  shows "scan st ps (BeginArray # rest) =
           (length ps < maxNestingDepth \<and> scan stateBeginValueOrEmpty (parseArrayValue # ps) rest)"
    and "scan st ps (BeginObject # rest) =
           (length ps < maxNestingDepth \<and> scan stateBeginStringOrEmpty (parseObjectKey # ps) rest)"
  using assms by (auto simp: scanStep_def)

lemma endOf_Cons: "endOf (p # ps) = stateEndValue"
  by (simp add: endOf_def)

lemma scan_tokensOf:
  "length ps \<le> maxNestingDepth \<Longrightarrow> st = stateBeginValue \<or> st = stateBeginValueOrEmpty \<Longrightarrow>
   scan st ps (tokensOf v @ rest) =
     (length ps + depth v \<le> maxNestingDepth \<and> scan (endOf ps) ps rest)"
proof (induction v arbitrary: ps rest st)
  case (JArr vs)
  show ?case
  proof (cases "length ps < maxNestingDepth")
    case False
    with JArr.prems(2) show ?thesis by (auto simp: scan_open depth_JArr_le simp del: scan.simps)
  next
    case lt: True
    then have le: "length (parseArrayValue # ps) \<le> maxNestingDepth" by simp
    have more: "scan stateEndValue (parseArrayValue # ps)
          (concat (map (\<lambda>y. Comma # y) (map tokensOf ws)) @ EndArray # rest)
        = ((\<forall>w\<in>set ws. Suc (length ps) + depth w \<le> maxNestingDepth) \<and> scan (endOf ps) ps rest)"
      if "set ws \<subseteq> set vs" for ws
      using that
    proof (induction ws)
      case Nil
      show ?case by (simp add: scan_close del: scan.simps)
    next
      case (Cons w ws)
      then have w: "w \<in> set vs" and ws: "set ws \<subseteq> set vs" by simp_all
      from JArr.IH[OF w le, of stateBeginValue] Cons.IH[OF ws]
      show ?case by (simp add: scan_sep endOf_Cons del: scan.simps)
    qed
    show ?thesis
    proof (cases vs)
      case Nil
      with lt JArr.prems(2) show ?thesis
        by (simp add: scan_open scan_close depth_JArr_le del: scan.simps depth.simps)
    next
      case (Cons w ws)
      then have w: "w \<in> set vs" and ws: "set ws \<subseteq> set vs" by auto
      from JArr.IH[OF w le, of stateBeginValueOrEmpty] more[OF ws] lt JArr.prems(2)
      show ?thesis
        by (simp add: Cons joinComma_Cons scan_open endOf_Cons depth_JArr_le
            del: scan.simps depth.simps)
    qed
  qed
next
  case (JObj ms)
  show ?case
  proof (cases "length ps < maxNestingDepth")
    case False
    with JObj.prems(2) show ?thesis by (auto simp: scan_open depth_JObj_le simp del: scan.simps)
  next
    case lt: True
    then have le: "length (parseObjectValue # ps) \<le> maxNestingDepth" by simp
    have one: "scan stateBeginValue (parseObjectValue # ps) (tokensOf v @ X)
          = (Suc (length ps) + depth v \<le> maxNestingDepth \<and> scan stateEndValue (parseObjectValue # ps) X)"
      if "(k, v) \<in> set ms" for k v X
      using JObj.IH[OF that _ le, of v stateBeginValue X] by (simp add: endOf_Cons)
    have more: "scan stateEndValue (parseObjectValue # ps)
          (concat (map (\<lambda>y. Comma # y) (map (\<lambda>(k, v). Str k # Colon # tokensOf v) ws)) @ EndObject # rest)
        = ((\<forall>(k, v)\<in>set ws. Suc (length ps) + depth v \<le> maxNestingDepth) \<and> scan (endOf ps) ps rest)"
      if "set ws \<subseteq> set ms" for ws
      using that
    proof (induction ws)
      case Nil
      show ?case by (simp add: scan_close del: scan.simps)
    next
      case (Cons w ws)
      obtain k v where kv: "w = (k, v)" by (cases w)
      with Cons.prems have w: "(k, v) \<in> set ms" and ws: "set ws \<subseteq> set ms" by simp_all
      from one[OF w] Cons.IH[OF ws]
      show ?case by (simp add: kv scan_sep del: scan.simps)
    qed
    show ?thesis
    proof (cases ms)
      case Nil
      with lt JObj.prems(2) show ?thesis
        by (simp add: scan_open scan_close depth_JObj_le del: scan.simps depth.simps)
    next
      case (Cons w ws)
      obtain k v where kv: "w = (k, v)" by (cases w)
      with Cons have w: "(k, v) \<in> set ms" and ws: "set ws \<subseteq> set ms" by auto
      from one[OF w] more[OF ws] lt JObj.prems(2)
      show ?thesis
        by (simp add: Cons kv joinComma_Cons scan_open scan_sep depth_JObj_le
            del: scan.simps depth.simps)
    qed
  qed
qed (simp_all add: scan_scalar isScalar_def del: scan.simps)

lemma checkValid_tokensOf: "checkValid (tokensOf v) \<longleftrightarrow> depth v \<le> maxNestingDepth"
  using scan_tokensOf[of "[]" stateBeginValue v "[]"] by (simp add: checkValid_def endOf_def)

lemma skip_tokensOf: "skip n (tokensOf v @ rest) = (if n = 0 then rest else skip n rest)"
proof (induction v arbitrary: n rest)
  case (JArr vs)
  have inner: "skip (Suc n) (concat (map (\<lambda>y. Comma # y) (map tokensOf ws)) @ X) = skip (Suc n) X"
    if "set ws \<subseteq> set vs" for ws X
    using that
  proof (induction ws)
    case Nil
    show ?case by simp
  next
    case (Cons w ws)
    then have w: "w \<in> set vs" and ws: "set ws \<subseteq> set vs" by simp_all
    from JArr.IH[OF w, of "Suc n"] Cons.IH[OF ws] show ?case by simp
  qed
  show ?case
  proof (cases vs)
    case Nil
    then show ?thesis by simp
  next
    case (Cons w ws)
    then have w: "w \<in> set vs" and ws: "set ws \<subseteq> set vs" by auto
    from JArr.IH[OF w, of "Suc n"] inner[OF ws, of "EndArray # rest"]
    show ?thesis by (simp add: Cons joinComma_Cons)
  qed
next
  case (JObj ms)
  have inner: "skip (Suc n)
        (concat (map (\<lambda>y. Comma # y) (map (\<lambda>(k, v). Str k # Colon # tokensOf v) ws)) @ X) = skip (Suc n) X"
    if "set ws \<subseteq> set ms" for ws X
    using that
  proof (induction ws)
    case Nil
    show ?case by simp
  next
    case (Cons w ws)
    obtain k v where kv: "w = (k, v)" by (cases w)
    with Cons.prems have w: "(k, v) \<in> set ms" and ws: "set ws \<subseteq> set ms" by simp_all
    from JObj.IH[OF w, of v "Suc n"] Cons.IH[OF ws] show ?case by (simp add: kv)
  qed
  show ?case
  proof (cases ms)
    case Nil
    then show ?thesis by simp
  next
    case (Cons w ws)
    obtain k v where kv: "w = (k, v)" by (cases w)
    with Cons have w: "(k, v) \<in> set ms" and ws: "set ws \<subseteq> set ms" by auto
    from JObj.IH[OF w, of v "Suc n"] inner[OF ws, of "EndObject # rest"]
    show ?thesis by (simp add: Cons kv joinComma_Cons)
  qed
qed simp_all

section \<open>Decoding the members of an object\<close>

lemma object_EndObject: "object d (EndObject # rest) = d"
  by (subst object.simps) simp

lemma object_member:
  "object d (Str k # Colon # tokensOf v @ X) =
     (case X of Comma # Y \<Rightarrow> object (storeMember d (k, v)) Y | _ \<Rightarrow> storeMember d (k, v))"
proof -
  obtain t ts where t: "tokensOf v = t # ts" using tokensOf_Cons[of v] by blast
  have s: "skip 0 (t # ts @ X) = X" using skip_tokensOf[of 0 v X] by (simp add: t)
  have sm: "storeMember d (k, v) = literalStore (fieldByName k) t d"
    by (simp add: storeMember_def t)
  show ?thesis
    by (subst object.simps) (simp add: t s sm del: skip.simps split: list.splits token.splits)
qed

lemma object_members_tokens:
  "object d (joinComma (map (\<lambda>(k, v). Str k # Colon # tokensOf v) (m # ms)) @ EndObject # rest)
     = foldl storeMember d (m # ms)"
proof (induction ms arbitrary: d m)
  case Nil
  obtain k v where kv: "m = (k, v)" by (cases m)
  show ?case using object_member[of d k v "EndObject # rest"] by (simp add: kv)
next
  case (Cons a ms)
  obtain k v where kv: "m = (k, v)" by (cases m)
  obtain k' v' where kv': "a = (k', v')" by (cases a)
  from Cons.IH[of "storeMember d m" a]
  show ?case
    using object_member[of d k v
        "Comma # joinComma (map (\<lambda>(k, v). Str k # Colon # tokensOf v) (a # ms)) @ EndObject # rest"]
    by (simp add: kv kv')
qed

lemma savedError_storeMember:
  "savedError (storeMember d (k, v)) \<longleftrightarrow> savedError d \<or> (fieldByName k \<noteq> None \<and> \<not> stringOrNull v)"
  by (cases v; cases "fieldByName k") (simp_all add: storeMember_def literalStore_def stringOrNull_def)

lemma savedError_foldl:
  "savedError (foldl storeMember d ms) \<longleftrightarrow> savedError d \<or> typeError ms"
proof (induction ms arbitrary: d)
  case Nil
  show ?case by (simp add: typeError_def)
next
  case (Cons m ms)
  obtain k v where kv: "m = (k, v)" by (cases m)
  show ?case using Cons.IH[of "storeMember d m"]
    by (auto simp: kv savedError_storeMember typeError_def)
qed

lemma getField_storeMember:
  "getField f (data (storeMember d (k, v))) =
     (case v of JStr t \<Rightarrow> if fieldByName k = Some f then t else getField f (data d)
      | _ \<Rightarrow> getField f (data d))"
  by (cases v; cases "fieldByName k"; cases f)
    (auto simp: storeMember_def literalStore_def getField_def setField_def split: field.splits)

lemma stringsFor_snoc:
  "stringsFor f (ms @ [(k, v)]) =
     stringsFor f ms @ (case v of JStr t \<Rightarrow> if fieldByName k = Some f then [t] else [] | _ \<Rightarrow> [])"
  by (cases v) (simp_all add: stringsFor_def)

lemma getField_foldl:
  "getField f (data (foldl storeMember d ms)) =
     (case stringsFor f ms of [] \<Rightarrow> getField f (data d) | t # ts \<Rightarrow> last (t # ts))"
proof (induction ms rule: rev_induct)
  case Nil
  show ?case by (simp add: stringsFor_def)
next
  case (snoc m ms)
  obtain k v where kv: "m = (k, v)" by (cases m)
  show ?case
    using snoc.IH
    by (cases v) (auto simp: kv getField_storeMember stringsFor_snoc split: list.splits)
qed


lemma scan_value_cases:
  assumes "scan st ps (t # ts)"
    and "st = stateBeginValue \<or> (st = stateBeginValueOrEmpty \<and> t \<noteq> EndArray)"
  shows "(isScalar t \<and> scan (endOf ps) ps ts)
       \<or> (t = BeginArray \<and> length ps < maxNestingDepth \<and> scan stateBeginValueOrEmpty (parseArrayValue # ps) ts)
       \<or> (t = BeginObject \<and> length ps < maxNestingDepth \<and> scan stateBeginStringOrEmpty (parseObjectKey # ps) ts)"
  using assms by (auto simp: scanStep_def split: if_splits)

lemma scan_array_cases:
  assumes "scan stateEndValue (parseArrayValue # ps) (t # ts)"
  shows "(t = Comma \<and> scan stateBeginValue (parseArrayValue # ps) ts)
       \<or> (t = EndArray \<and> scan (endOf ps) ps ts)"
  using assms by (auto simp: scanStep_def split: if_splits)

lemma scan_object_cases:
  assumes "scan stateEndValue (parseObjectValue # ps) (t # ts)"
  shows "(t = Comma \<and> scan stateBeginString (parseObjectKey # ps) ts)
       \<or> (t = EndObject \<and> scan (endOf ps) ps ts)"
  using assms by (auto simp: scanStep_def split: if_splits)

lemma scan_key_cases:
  assumes "scan st (parseObjectKey # ps) ts"
    and "st = stateBeginString \<or> (st = stateBeginStringOrEmpty \<and> (\<forall>r. ts \<noteq> EndObject # r))"
  shows "\<exists>k ts'. ts = Str k # Colon # ts' \<and> scan stateBeginValue (parseObjectValue # ps) ts'"
proof (cases ts)
  case Nil
  with assms show ?thesis by auto
next
  case (Cons t ts1)
  with assms obtain k where t: "t = Str k" and s1: "scan stateEndValue (parseObjectKey # ps) ts1"
    by (auto simp: scanStep_def split: if_splits token.splits)
  show ?thesis
  proof (cases ts1)
    case Nil
    with s1 show ?thesis by simp
  next
    case (Cons c ts2)
    with s1 have "c = Colon" and "scan stateBeginValue (parseObjectValue # ps) ts2"
      by (auto simp: scanStep_def split: if_splits)
    with Cons \<open>ts = t # ts1\<close> t show ?thesis by simp
  qed
qed

lemma scalar_tokensOf: "isScalar t \<Longrightarrow> \<exists>v. tokensOf v = [t] \<and> depth v = 0"
proof (cases t)
  case (Str x)
  have "tokensOf (JStr x) = [Str x] \<and> depth (JStr x) = 0" by simp
  with Str show ?thesis by blast
next
  case Num
  have "tokensOf JNum = [Num] \<and> depth JNum = 0" by simp
  with Num show ?thesis by blast
next
  case LitTrue
  have "tokensOf JTrue = [LitTrue] \<and> depth JTrue = 0" by simp
  with LitTrue show ?thesis by blast
next
  case LitFalse
  have "tokensOf JFalse = [LitFalse] \<and> depth JFalse = 0" by simp
  with LitFalse show ?thesis by blast
next
  case LitNull
  have "tokensOf JNull = [LitNull] \<and> depth JNull = 0" by simp
  with LitNull show ?thesis by blast
qed (simp_all add: isScalar_def)

section \<open>What the scanner accepts is the text of a value\<close>

lemma scan_complete_aux:
  "\<forall>ts st ps. length ts \<le> n \<longrightarrow>
     ((st = stateBeginValue \<or> (st = stateBeginValueOrEmpty \<and> (\<forall>r. ts \<noteq> EndArray # r)))
        \<and> scan st ps ts \<longrightarrow> valueAt ps ts)
     \<and> (scan stateEndValue (parseArrayValue # ps) ts \<longrightarrow> elementsAt ps ts)
     \<and> (scan stateEndValue (parseObjectValue # ps) ts \<longrightarrow> membersAt ps ts)"
proof (induction n)
  case 0
  show ?case by auto
next
  case (Suc n)
  have ihV: "valueAt ps ts"
    if "length ts \<le> n" "st = stateBeginValue \<or> (st = stateBeginValueOrEmpty \<and> (\<forall>r. ts \<noteq> EndArray # r))"
      "scan st ps ts" for ts st ps
    using Suc.IH that by blast
  have ihE: "elementsAt ps ts"
    if "length ts \<le> n" "scan stateEndValue (parseArrayValue # ps) ts" for ts ps
    using Suc.IH that by blast
  have ihM: "membersAt ps ts"
    if "length ts \<le> n" "scan stateEndValue (parseObjectValue # ps) ts" for ts ps
    using Suc.IH that by blast
  have member: "\<exists>v ms rest. ts = tokensOf v @ concat (map (\<lambda>y. Comma # y)
          (map (\<lambda>(k, v). Str k # Colon # tokensOf v) ms)) @ EndObject # rest
        \<and> scan (endOf ps) ps rest"
    if len: "length ts \<le> n" and sc: "scan stateBeginValue (parseObjectValue # ps) ts" for ts ps
  proof -
    from ihV[OF len _ sc] obtain v rest1 where
      ts: "ts = tokensOf v @ rest1" and
      s1: "scan stateEndValue (parseObjectValue # ps) rest1"
      by (auto simp: valueAt_def endOf_Cons)
    from ts len have "length rest1 \<le> n" by simp
    from ihM[OF this s1] obtain ms rest where
      r1: "rest1 = concat (map (\<lambda>y. Comma # y) (map (\<lambda>(k, v). Str k # Colon # tokensOf v) ms))
                    @ EndObject # rest" and
      s2: "scan (endOf ps) ps rest"
      by (auto simp: membersAt_def)
    from ts r1 s2 show ?thesis by auto
  qed
  show ?case
  proof (intro allI impI conjI)
    fix ts :: "token list" and st ps
    assume len: "length ts \<le> Suc n"
    assume "(st = stateBeginValue \<or> (st = stateBeginValueOrEmpty \<and> (\<forall>r. ts \<noteq> EndArray # r)))
        \<and> scan st ps ts"
    then have st: "st = stateBeginValue \<or> (st = stateBeginValueOrEmpty \<and> (\<forall>r. ts \<noteq> EndArray # r))"
      and sc: "scan st ps ts" by simp_all
    from sc st obtain t ts1 where ts: "ts = t # ts1" by (cases ts) auto
    with len have len1: "length ts1 \<le> n" by simp
    from st ts have st': "st = stateBeginValue \<or> (st = stateBeginValueOrEmpty \<and> t \<noteq> EndArray)" by auto
    from scan_value_cases[OF sc[unfolded ts] st']
    consider (scalar) "isScalar t" "scan (endOf ps) ps ts1"
      | (array) "t = BeginArray" "scan stateBeginValueOrEmpty (parseArrayValue # ps) ts1"
      | (obj) "t = BeginObject" "scan stateBeginStringOrEmpty (parseObjectKey # ps) ts1"
      by blast
    then show "valueAt ps ts"
    proof cases
      case scalar
      from scalar_tokensOf[OF scalar(1)] obtain v where "tokensOf v = [t]" by blast
      with scalar(2) ts show ?thesis
        unfolding valueAt_def
        by (intro exI[of _ v] exI[of _ ts1]) simp
    next
      case array
      show ?thesis
      proof (cases "\<exists>r. ts1 = EndArray # r")
        case True
        then obtain r where r: "ts1 = EndArray # r" by blast
        with array(2) have "scan (endOf ps) ps r" by (simp add: scan_close del: scan.simps)
        with array ts r show ?thesis
          unfolding valueAt_def
          by (intro exI[of _ "JArr []"] exI[of _ r]) simp
      next
        case False
        from False ihV[OF len1 _ array(2)] obtain v rest1 where
          t1: "ts1 = tokensOf v @ rest1" and
          s1: "scan stateEndValue (parseArrayValue # ps) rest1"
          by (auto simp: valueAt_def endOf_Cons)
        from t1 len1 have "length rest1 \<le> n" by simp
        from ihE[OF this s1] obtain vs rest where
          r1: "rest1 = concat (map (\<lambda>y. Comma # y) (map tokensOf vs)) @ EndArray # rest" and
          s2: "scan (endOf ps) ps rest"
          by (auto simp: elementsAt_def)
        have "ts = tokensOf (JArr (v # vs)) @ rest"
          by (simp add: ts array(1) t1 r1 joinComma_Cons)
        with s2 show ?thesis unfolding valueAt_def by blast
      qed
    next
      case obj
      show ?thesis
      proof (cases "\<exists>r. ts1 = EndObject # r")
        case True
        then obtain r where r: "ts1 = EndObject # r" by blast
        with obj(2) have "scan (endOf ps) ps r" by (simp add: scan_close del: scan.simps)
        with obj ts r show ?thesis
          unfolding valueAt_def
          by (intro exI[of _ "JObj []"] exI[of _ r]) simp
      next
        case False
        with scan_key_cases[OF obj(2)] obtain k ts3 where
          t1: "ts1 = Str k # Colon # ts3" and
          s3: "scan stateBeginValue (parseObjectValue # ps) ts3"
          by blast
        from t1 len1 have "length ts3 \<le> n" by simp
        from member[OF this s3] obtain v ms rest where
          t3: "ts3 = tokensOf v @ concat (map (\<lambda>y. Comma # y)
              (map (\<lambda>(k, v). Str k # Colon # tokensOf v) ms)) @ EndObject # rest" and
          s2: "scan (endOf ps) ps rest"
          by blast
        have "ts = tokensOf (JObj ((k, v) # ms)) @ rest"
          by (simp add: ts obj(1) t1 t3 joinComma_Cons)
        with s2 show ?thesis unfolding valueAt_def by blast
      qed
    qed
  next
    fix ts :: "token list" and st :: step and ps
    assume len: "length ts \<le> Suc n"
    assume sc: "scan stateEndValue (parseArrayValue # ps) ts"
    then obtain t ts1 where ts: "ts = t # ts1" by (cases ts) auto
    with len have len1: "length ts1 \<le> n" by simp
    from scan_array_cases[OF sc[unfolded ts]]
    consider (more) "t = Comma" "scan stateBeginValue (parseArrayValue # ps) ts1"
      | (close) "t = EndArray" "scan (endOf ps) ps ts1"
      by blast
    then show "elementsAt ps ts"
    proof cases
      case more
      from ihV[OF len1 _ more(2)] obtain v rest1 where
        t1: "ts1 = tokensOf v @ rest1" and
        s1: "scan stateEndValue (parseArrayValue # ps) rest1"
        by (auto simp: valueAt_def endOf_Cons)
      from t1 len1 have "length rest1 \<le> n" by simp
      from ihE[OF this s1] obtain vs rest where
        r1: "rest1 = concat (map (\<lambda>y. Comma # y) (map tokensOf vs)) @ EndArray # rest" and
        s2: "scan (endOf ps) ps rest"
        by (auto simp: elementsAt_def)
      have "ts = concat (map (\<lambda>y. Comma # y) (map tokensOf (v # vs))) @ EndArray # rest"
        by (simp add: ts more(1) t1 r1)
      with s2 show ?thesis unfolding elementsAt_def by blast
    next
      case close
      have "ts = concat (map (\<lambda>y. Comma # y) (map tokensOf [])) @ EndArray # ts1"
        by (simp add: ts close(1))
      with close(2) show ?thesis unfolding elementsAt_def by blast
    qed
  next
    fix ts :: "token list" and st :: step and ps
    assume len: "length ts \<le> Suc n"
    assume sc: "scan stateEndValue (parseObjectValue # ps) ts"
    then obtain t ts1 where ts: "ts = t # ts1" by (cases ts) auto
    with len have len1: "length ts1 \<le> n" by simp
    from scan_object_cases[OF sc[unfolded ts]]
    consider (more) "t = Comma" "scan stateBeginString (parseObjectKey # ps) ts1"
      | (close) "t = EndObject" "scan (endOf ps) ps ts1"
      by blast
    then show "membersAt ps ts"
    proof cases
      case more
      from scan_key_cases[OF more(2)] obtain k ts3 where
        t1: "ts1 = Str k # Colon # ts3" and
        s3: "scan stateBeginValue (parseObjectValue # ps) ts3"
        by blast
      from t1 len1 have "length ts3 \<le> n" by simp
      from member[OF this s3] obtain v ms rest where
        t3: "ts3 = tokensOf v @ concat (map (\<lambda>y. Comma # y)
            (map (\<lambda>(k, v). Str k # Colon # tokensOf v) ms)) @ EndObject # rest" and
        s2: "scan (endOf ps) ps rest"
        by blast
      have "ts = concat (map (\<lambda>y. Comma # y)
          (map (\<lambda>(k, v). Str k # Colon # tokensOf v) ((k, v) # ms))) @ EndObject # rest"
        by (simp add: ts more(1) t1 t3)
      with s2 show ?thesis unfolding membersAt_def by blast
    next
      case close
      have "ts = concat (map (\<lambda>y. Comma # y)
          (map (\<lambda>(k, v). Str k # Colon # tokensOf v) [])) @ EndObject # ts1"
        by (simp add: ts close(1))
      with close(2) show ?thesis unfolding membersAt_def by blast
    qed
  qed
qed

lemma checkValid_value: "checkValid ts \<Longrightarrow> \<exists>v. ts = tokensOf v"
proof -
  assume "checkValid ts"
  then have sc: "scan stateBeginValue [] ts" by (simp add: checkValid_def)
  from scan_complete_aux[of "length ts"] sc have "valueAt [] ts" by blast
  then obtain v rest where ts: "ts = tokensOf v @ rest" and r: "scan stateEndTop [] rest"
    by (auto simp: valueAt_def endOf_def)
  from r have "rest = []" by (cases rest) (simp_all add: scanStep_def)
  with ts show ?thesis by auto
qed

section \<open>Unmarshal in terms of the value\<close>

lemma payload_getField: "p = \<lparr>payload_ID = getField FieldID p, payload_Sig = getField FieldSig p\<rparr>"
  by (simp add: getField_def)

lemma Unmarshal_parsesAs:
  assumes "parsesAs raw v"
  shows "Unmarshal raw = (if depth v \<le> maxNestingDepth then decodeValue v else None)"
proof (cases "depth v \<le> maxNestingDepth")
  case False
  with assms show ?thesis by (simp add: Unmarshal_def parsesAs_def checkValid_tokensOf)
next
  case True
  then have cv: "checkValid (tokensOf v)" by (simp add: checkValid_tokensOf)
  show ?thesis
  proof (cases v)
    case (JObj ms)
    let ?d0 = "\<lparr>data = \<lparr>payload_ID = [], payload_Sig = []\<rparr>, savedError = False\<rparr>"
    have ob: "object ?d0 (joinComma (map (\<lambda>(k, v). Str k # Colon # tokensOf v) ms) @ [EndObject])
        = foldl storeMember ?d0 ms"
    proof (cases ms)
      case Nil
      then show ?thesis by (simp add: object_EndObject)
    next
      case (Cons m ms')
      show ?thesis unfolding Cons using object_members_tokens[of ?d0 m ms' "[]"] by simp
    qed
    have er: "savedError (foldl storeMember ?d0 ms) = typeError ms"
      by (simp add: savedError_foldl)
    have fv: "getField f (data (foldl storeMember ?d0 ms)) = fieldValue f ms" for f
      unfolding getField_foldl fieldValue_def
      by (cases f) (simp_all add: getField_def split: list.splits)
    have da: "data (foldl storeMember ?d0 ms)
        = \<lparr>payload_ID = fieldValue FieldID ms, payload_Sig = fieldValue FieldSig ms\<rparr>"
      using payload_getField[of "data (foldl storeMember ?d0 ms)"] by (simp only: fv)
    from assms cv True show ?thesis
      unfolding Unmarshal_def parsesAs_def
      by (simp add: JObj ob er da decodeValue_def Let_def del: depth.simps)
  qed (use assms cv True in \<open>simp_all add: Unmarshal_def parsesAs_def decodeValue_def\<close>)
qed

lemma Unmarshal_Some_parses: "Unmarshal raw = Some p \<Longrightarrow> \<exists>v. parsesAs raw v"
proof -
  assume u: "Unmarshal raw = Some p"
  then obtain ts where l: "lex raw = Some ts" and c: "checkValid ts"
    by (auto simp: Unmarshal_def split: option.splits if_splits)
  from checkValid_value[OF c] l show ?thesis by (auto simp: parsesAs_def)
qed

lemma decodeValue_None:
  "decodeValue v = None \<longleftrightarrow> \<not> objectOrNull v \<or> (\<exists>ms. v = JObj ms \<and> typeError ms)"
  by (cases v) (simp_all add: decodeValue_def objectOrNull_def)

lemma Unmarshal_None_causes:
  "Unmarshal raw = None \<longleftrightarrow>
     (\<forall>v. \<not> parsesAs raw v)
     \<or> (\<exists>v. parsesAs raw v \<and> maxNestingDepth < depth v)
     \<or> (\<exists>v. parsesAs raw v \<and> \<not> objectOrNull v)
     \<or> (\<exists>ms. parsesAs raw (JObj ms) \<and> typeError ms)"
proof
  assume u: "Unmarshal raw = None"
  show "(\<forall>v. \<not> parsesAs raw v)
     \<or> (\<exists>v. parsesAs raw v \<and> maxNestingDepth < depth v)
     \<or> (\<exists>v. parsesAs raw v \<and> \<not> objectOrNull v)
     \<or> (\<exists>ms. parsesAs raw (JObj ms) \<and> typeError ms)"
  proof (cases "\<exists>v. parsesAs raw v")
    case False
    then show ?thesis by blast
  next
    case True
    then obtain v where p: "parsesAs raw v" by blast
    show ?thesis
    proof (cases "depth v \<le> maxNestingDepth")
      case False
      with p show ?thesis by (meson not_le)
    next
      case True
      with Unmarshal_parsesAs[OF p] u have "decodeValue v = None" by simp
      with p show ?thesis unfolding decodeValue_None by blast
    qed
  qed
next
  assume "(\<forall>v. \<not> parsesAs raw v)
     \<or> (\<exists>v. parsesAs raw v \<and> maxNestingDepth < depth v)
     \<or> (\<exists>v. parsesAs raw v \<and> \<not> objectOrNull v)
     \<or> (\<exists>ms. parsesAs raw (JObj ms) \<and> typeError ms)"
  then consider (a) "\<forall>v. \<not> parsesAs raw v"
    | (b) v where "parsesAs raw v" "maxNestingDepth < depth v"
    | (c) v where "parsesAs raw v" "\<not> objectOrNull v"
    | (d) ms where "parsesAs raw (JObj ms)" "typeError ms"
    by blast
  then show "Unmarshal raw = None"
  proof cases
    case a
    with Unmarshal_Some_parses[of raw] show ?thesis by (cases "Unmarshal raw") auto
  next
    case b
    with Unmarshal_parsesAs[OF b(1)] show ?thesis by simp
  next
    case c
    from c(2) have "decodeValue v = None" by (simp add: decodeValue_None)
    with Unmarshal_parsesAs[OF c(1)] show ?thesis by simp
  next
    case d
    from d(2) have "decodeValue (JObj ms) = None" by (simp add: decodeValue_None)
    with Unmarshal_parsesAs[OF d(1)] show ?thesis by simp
  qed
qed

lemma depth_nested: "depth (nested n) = n"
  by (induction n) simp_all

lemma tokensOf_nested:
  "tokensOf (nested n) = replicate n BeginArray @ [LitNull] @ replicate n EndArray"
  by (induction n) (simp_all add: replicate_append_same)

lemma lex_replicate_open:
  "lex (replicate n CHR ''['' @ X) = map_option (\<lambda>ts. replicate n BeginArray @ ts) (lex X)"
  by (induction n) (simp_all add: isSpace_def option.map_comp comp_def option.map_ident)

lemma lex_replicate_close:
  "lex (replicate n CHR '']'') = Some (replicate n EndArray)"
  by (induction n) (simp_all add: isSpace_def)

lemma parsesAs_nested: "parsesAs (nestedText n) (nested n)"
proof -
  have "lex (''null'' @ replicate n CHR '']'') = Some (LitNull # replicate n EndArray)"
    by (simp add: isSpace_def isDigit_def lex_replicate_close)
  then show ?thesis
    by (simp add: parsesAs_def nestedText_def lex_replicate_open tokensOf_nested)
qed

lemma DecodeString_examples:
  "DecodeString ''W10'' = Some ''[]''"
  "DecodeString ''ew'' = Some ''{''"
  "DecodeString ''eyJpZCI6MX0'' = Some [CHR ''{'', CHR 0x22, CHR ''i'', CHR ''d'', CHR 0x22, CHR '':'', CHR ''1'', CHR ''}'']"
  "DecodeString ''eyJpZCI6ImEifQ'' = Some [CHR ''{'', CHR 0x22, CHR ''i'', CHR ''d'', CHR 0x22, CHR '':'', CHR 0x22, CHR ''a'', CHR 0x22, CHR ''}'']"
proof -
  have "EncodeToString ''[]'' = ''W10''" by (simp add: encodeURL_def Let_def)
  then show "DecodeString ''W10'' = Some ''[]''"
    using DecodeString_EncodeToString[of "''[]''"] by simp
  have "EncodeToString ''{'' = ''ew''" by (simp add: encodeURL_def Let_def)
  then show "DecodeString ''ew'' = Some ''{''"
    using DecodeString_EncodeToString[of "''{''"] by simp
  have "EncodeToString [CHR ''{'', CHR 0x22, CHR ''i'', CHR ''d'', CHR 0x22, CHR '':'', CHR ''1'', CHR ''}''] = ''eyJpZCI6MX0''"
    by (simp add: encodeURL_def Let_def)
  then show "DecodeString ''eyJpZCI6MX0'' = Some [CHR ''{'', CHR 0x22, CHR ''i'', CHR ''d'', CHR 0x22, CHR '':'', CHR ''1'', CHR ''}'']"
    using DecodeString_EncodeToString[of "[CHR ''{'', CHR 0x22, CHR ''i'', CHR ''d'', CHR 0x22, CHR '':'', CHR ''1'', CHR ''}'']"] by simp
  have "EncodeToString [CHR ''{'', CHR 0x22, CHR ''i'', CHR ''d'', CHR 0x22, CHR '':'', CHR 0x22, CHR ''a'', CHR 0x22, CHR ''}''] = ''eyJpZCI6ImEifQ''"
    by (simp add: encodeURL_def Let_def)
  then show "DecodeString ''eyJpZCI6ImEifQ'' = Some [CHR ''{'', CHR 0x22, CHR ''i'', CHR ''d'', CHR 0x22, CHR '':'', CHR 0x22, CHR ''a'', CHR 0x22, CHR ''}'']"
    using DecodeString_EncodeToString[of "[CHR ''{'', CHR 0x22, CHR ''i'', CHR ''d'', CHR 0x22, CHR '':'', CHR 0x22, CHR ''a'', CHR 0x22, CHR ''}'']"] by simp
qed

lemma parsesAs_examples:
  "parsesAs ''[]'' (JArr [])"
  "parsesAs [CHR ''{'', CHR 0x22, CHR ''i'', CHR ''d'', CHR 0x22, CHR '':'', CHR ''1'', CHR ''}''] (JObj [(''id'', JNum)])"
  "parsesAs [CHR ''{'', CHR 0x22, CHR ''i'', CHR ''d'', CHR 0x22, CHR '':'', CHR 0x22, CHR ''a'', CHR 0x22, CHR ''}''] (JObj [(''id'', JStr ''a'')])"
proof -
  show "parsesAs ''[]'' (JArr [])" by (simp add: parsesAs_def isSpace_def)
  have n: "lexNumber ''1}'' = Some ''}''"
    by (simp add: lexNumber_def lexFrac_def lexExp_def isDigit_def)
  show "parsesAs [CHR ''{'', CHR 0x22, CHR ''i'', CHR ''d'', CHR 0x22, CHR '':'', CHR ''1'', CHR ''}''] (JObj [(''id'', JNum)])"
    by (simp add: parsesAs_def isSpace_def isDigit_def unquoteStep_def emit_def n)
  show "parsesAs [CHR ''{'', CHR 0x22, CHR ''i'', CHR ''d'', CHR 0x22, CHR '':'', CHR 0x22, CHR ''a'', CHR 0x22, CHR ''}''] (JObj [(''id'', JStr ''a'')])"
    by (simp add: parsesAs_def isSpace_def isDigit_def unquoteStep_def emit_def)
qed

lemma no_value_open_brace: "\<not> parsesAs ''{'' v"
  by (cases v) (auto simp: parsesAs_def isSpace_def)


lemma stringsFor_missing:
  "(\<forall>(k, v)\<in>set ms. fieldByName k \<noteq> Some f) \<Longrightarrow> stringsFor f ms = []"
  by (induction ms) (auto simp: stringsFor_def split: json.splits)

lemma fieldValue_missing:
  "(\<forall>(k, v)\<in>set ms. fieldByName k \<noteq> Some f) \<Longrightarrow> fieldValue f ms = []"
  by (simp add: fieldValue_def stringsFor_missing)

lemma DecodePayload_object:
  assumes "DecodeString encoded = Some raw" and "parsesAs raw (JObj ms)"
    and "depth (JObj ms) \<le> maxNestingDepth" and "\<not> typeError ms"
  shows "DecodePayload encoded =
    Inr \<lparr>payload_ID = fieldValue FieldID ms, payload_Sig = fieldValue FieldSig ms\<rparr>"
  using assms Unmarshal_parsesAs[OF assms(2)]
  by (simp add: DecodePayload_def decodeValue_def del: depth.simps)

section \<open>The payload codec: failure and round trip\<close>

lemma Unmarshal_empty_object: "Unmarshal ''{}'' = Some \<lparr>payload_ID = [], payload_Sig = []\<rparr>"
proof -
  have l: "lex ''{}'' = Some [BeginObject, EndObject]"
    by (simp only: lex_punct lex.simps(1) option.map)
  have v: "checkValid [BeginObject, EndObject]"
    by (simp add: checkValid_def scanStep_def endOf_def maxNestingDepth_def)
  have o: "object d [EndObject] = d" for d
    by (subst object.simps) simp
  show ?thesis unfolding Unmarshal_def l by (simp add: v o)
qed

lemma DecodeString_empty_object: "DecodeString ''e30'' = Some ''{}''"
proof -
  have "EncodeToString ''{}'' = ''e30''" by (simp add: encodeURL_def Let_def)
  then show ?thesis using DecodeString_EncodeToString[of "''{}''"] by simp
qed

lemma DecodeString_bad_char: "DecodeString ''!'' = None"
  by (simp add: DecodeString_def decodeMap_def)

text \<open>
  C6. DecodePayload fails, and then with BadPayload, exactly when base64 decoding of
  the input fails or \<open>json.Unmarshal\<close> reports an error for the decoded bytes, which it
  does in four cases: the bytes are not a text of any JSON value; they are a text of a
  value nested more than 10000 deep; the value is neither an object nor \<open>null\<close>; or a
  member whose key selects id or sig holds something other than a string or \<open>null\<close>.
  An object without such an error is accepted whatever members it has: each field gets
  the string of the last member that selects it and holds a string, and a field that no
  member selects is left empty. \<open>null\<close> is accepted and leaves both fields empty. On
  a failure Verify, given a secret that is not empty, fails with BadPayload before it
  signs anything or calls the store.
\<close>

theorem DecodePayload_fails_iff:
  "(DecodePayload encoded = Inl ErrBadPayload \<longleftrightarrow>
      DecodeString encoded = None
      \<or> (\<exists>raw. DecodeString encoded = Some raw \<and>
           ((\<forall>v. \<not> parsesAs raw v)
            \<or> (\<exists>v. parsesAs raw v \<and> maxNestingDepth < depth v)
            \<or> (\<exists>v. parsesAs raw v \<and> \<not> objectOrNull v)
            \<or> (\<exists>ms. parsesAs raw (JObj ms) \<and> typeError ms))))
   \<and> (\<forall>raw ms. DecodeString encoded = Some raw \<and> parsesAs raw (JObj ms)
          \<and> depth (JObj ms) \<le> maxNestingDepth \<and> \<not> typeError ms \<longrightarrow>
        DecodePayload encoded =
          Inr \<lparr>payload_ID = fieldValue FieldID ms, payload_Sig = fieldValue FieldSig ms\<rparr>)
   \<and> (\<forall>raw ms f. DecodeString encoded = Some raw \<and> parsesAs raw (JObj ms)
          \<and> depth (JObj ms) \<le> maxNestingDepth \<and> \<not> typeError ms
          \<and> (\<forall>(k, v)\<in>set ms. fieldByName k \<noteq> Some f) \<longrightarrow>
        (\<exists>p. DecodePayload encoded = Inr p \<and> getField f p = []))
   \<and> (\<forall>raw. DecodeString encoded = Some raw \<and> parsesAs raw JNull \<longrightarrow>
        DecodePayload encoded = Inr \<lparr>payload_ID = [], payload_Sig = []\<rparr>)
   \<and> (\<forall>err. DecodePayload encoded = Inl err \<longrightarrow> err = ErrBadPayload)
   \<and> (secretKey \<noteq> [] \<and> DecodePayload encoded = Inl ErrBadPayload \<longrightarrow>
        Verify H m now secretKey encoded s = (Inl ErrBadPayload, s))"
proof (intro conjI allI impI)
  have "DecodePayload encoded = Inl ErrBadPayload \<longleftrightarrow>
      DecodeString encoded = None \<or> (\<exists>raw. DecodeString encoded = Some raw \<and> Unmarshal raw = None)"
    by (simp add: DecodePayload_def split: option.splits)
  then show "DecodePayload encoded = Inl ErrBadPayload \<longleftrightarrow>
      DecodeString encoded = None
      \<or> (\<exists>raw. DecodeString encoded = Some raw \<and>
           ((\<forall>v. \<not> parsesAs raw v)
            \<or> (\<exists>v. parsesAs raw v \<and> maxNestingDepth < depth v)
            \<or> (\<exists>v. parsesAs raw v \<and> \<not> objectOrNull v)
            \<or> (\<exists>ms. parsesAs raw (JObj ms) \<and> typeError ms)))"
    by (simp only: Unmarshal_None_causes)
next
  fix raw ms
  assume "DecodeString encoded = Some raw \<and> parsesAs raw (JObj ms)
          \<and> depth (JObj ms) \<le> maxNestingDepth \<and> \<not> typeError ms"
  then show "DecodePayload encoded =
          Inr \<lparr>payload_ID = fieldValue FieldID ms, payload_Sig = fieldValue FieldSig ms\<rparr>"
    using DecodePayload_object[of encoded raw ms] by blast
next
  fix raw ms f
  assume a: "DecodeString encoded = Some raw \<and> parsesAs raw (JObj ms)
          \<and> depth (JObj ms) \<le> maxNestingDepth \<and> \<not> typeError ms
          \<and> (\<forall>(k, v)\<in>set ms. fieldByName k \<noteq> Some f)"
  then have d: "DecodePayload encoded =
          Inr \<lparr>payload_ID = fieldValue FieldID ms, payload_Sig = fieldValue FieldSig ms\<rparr>"
    using DecodePayload_object[of encoded raw ms] by blast
  from a have "fieldValue f ms = []" by (simp add: fieldValue_missing)
  then have "getField f \<lparr>payload_ID = fieldValue FieldID ms, payload_Sig = fieldValue FieldSig ms\<rparr> = []"
    by (cases f) (simp_all add: getField_def)
  with d show "\<exists>p. DecodePayload encoded = Inr p \<and> getField f p = []" by blast
next
  fix raw
  assume a: "DecodeString encoded = Some raw \<and> parsesAs raw JNull"
  then have "Unmarshal raw = decodeValue JNull"
    using Unmarshal_parsesAs[of raw JNull] by simp
  with a show "DecodePayload encoded = Inr \<lparr>payload_ID = [], payload_Sig = []\<rparr>"
    by (simp add: DecodePayload_def decodeValue_def)
next
  fix err
  assume "DecodePayload encoded = Inl err"
  then show "err = ErrBadPayload"
    by (simp add: DecodePayload_def split: option.splits)
next
  assume "secretKey \<noteq> [] \<and> DecodePayload encoded = Inl ErrBadPayload"
  then show "Verify H m now secretKey encoded s = (Inl ErrBadPayload, s)"
    by (simp add: Verify_def Verify_check_def)
qed

theorem DecodePayload_fails_iff_witness:
  "DecodeString ''!'' = None \<and> DecodePayload ''!'' = Inl ErrBadPayload
   \<and> Verify exampleMac exampleManager 50 ''s'' ''!'' [exampleID \<mapsto> exampleToken 100 False]
       = (Inl ErrBadPayload, [exampleID \<mapsto> exampleToken 100 False])
   \<and> DecodeString ''ew'' = Some ''{'' \<and> DecodePayload ''ew'' = Inl ErrBadPayload
   \<and> parsesAs (nestedText 10001) (nested 10001) \<and> maxNestingDepth < depth (nested 10001)
   \<and> DecodePayload (EncodeToString (nestedText 10001)) = Inl ErrBadPayload
   \<and> DecodeString ''W10'' = Some ''[]'' \<and> DecodePayload ''W10'' = Inl ErrBadPayload
   \<and> DecodeString ''eyJpZCI6MX0'' = Some [CHR ''{'', CHR 0x22, CHR ''i'', CHR ''d'', CHR 0x22, CHR '':'', CHR ''1'', CHR ''}'']
   \<and> DecodePayload ''eyJpZCI6MX0'' = Inl ErrBadPayload
   \<and> DecodeString ''eyJpZCI6ImEifQ'' = Some [CHR ''{'', CHR 0x22, CHR ''i'', CHR ''d'', CHR 0x22, CHR '':'', CHR 0x22, CHR ''a'', CHR 0x22, CHR ''}'']
   \<and> DecodePayload ''eyJpZCI6ImEifQ'' = Inr \<lparr>payload_ID = ''a'', payload_Sig = []\<rparr>"
proof -
  let ?st = "[exampleID \<mapsto> exampleToken 100 False]"
  note t1 = DecodePayload_fails_iff[of "''!''" "''s''" exampleMac exampleManager 50 ?st]
  from t1 DecodeString_bad_char have d1: "DecodePayload ''!'' = Inl ErrBadPayload" by blast
  with t1 have v1: "Verify exampleMac exampleManager 50 ''s'' ''!'' ?st = (Inl ErrBadPayload, ?st)"
    by simp
  note t2 = DecodePayload_fails_iff[of "''ew''" "''s''" exampleMac exampleManager 50 ?st]
  from t2 DecodeString_examples(2) no_value_open_brace
  have d2: "DecodePayload ''ew'' = Inl ErrBadPayload" by blast
  have deep: "maxNestingDepth < depth (nested 10001)"
    by (simp add: depth_nested maxNestingDepth_def)
  note t3 = DecodePayload_fails_iff[of "EncodeToString (nestedText 10001)" "''s''" exampleMac
      exampleManager 50 ?st]
  from t3 DecodeString_EncodeToString[of "nestedText 10001"] parsesAs_nested[of 10001] deep
  have d3: "DecodePayload (EncodeToString (nestedText 10001)) = Inl ErrBadPayload" by blast
  have na: "\<not> objectOrNull (JArr [])" by (simp add: objectOrNull_def)
  note t4 = DecodePayload_fails_iff[of "''W10''" "''s''" exampleMac exampleManager 50 ?st]
  from t4 DecodeString_examples(1) parsesAs_examples(1) na
  have d4: "DecodePayload ''W10'' = Inl ErrBadPayload" by blast
  have te: "typeError [(''id'', JNum)]"
    by (simp add: typeError_def fieldByName_def stringOrNull_def)
  note t5 = DecodePayload_fails_iff[of "''eyJpZCI6MX0''" "''s''" exampleMac exampleManager 50 ?st]
  from t5 DecodeString_examples(3) parsesAs_examples(2) te
  have d5: "DecodePayload ''eyJpZCI6MX0'' = Inl ErrBadPayload" by blast
  have ok: "\<not> typeError [(''id'', JStr ''a'')]"
    by (simp add: typeError_def stringOrNull_def)
  have dp: "depth (JObj [(''id'', JStr ''a'')]) \<le> maxNestingDepth"
    by (simp add: maxNestingDepth_def)
  have fv: "fieldValue FieldID [(''id'', JStr ''a'')] = ''a''"
    "fieldValue FieldSig [(''id'', JStr ''a'')] = []"
    by (simp_all add: fieldValue_def stringsFor_def fieldByName_def)
  note t6 = DecodePayload_fails_iff[of "''eyJpZCI6ImEifQ''" "''s''" exampleMac exampleManager 50 ?st]
  from t6 DecodeString_examples(4) parsesAs_examples(3) dp ok
  have "DecodePayload ''eyJpZCI6ImEifQ'' =
      Inr \<lparr>payload_ID = fieldValue FieldID [(''id'', JStr ''a'')],
           payload_Sig = fieldValue FieldSig [(''id'', JStr ''a'')]\<rparr>"
    by blast
  then have d6: "DecodePayload ''eyJpZCI6ImEifQ'' = Inr \<lparr>payload_ID = ''a'', payload_Sig = []\<rparr>"
    by (simp only: fv)
  from DecodeString_bad_char d1 v1 DecodeString_examples d2 parsesAs_nested[of 10001] deep d3 d4 d5 d6
  show ?thesis by blast
qed

lemma DecodePayload_id_only:
  "DecodePayload ''eyJpZCI6ImEifQ'' = Inr \<lparr>payload_ID = ''a'', payload_Sig = []\<rparr>"
proof -
  have ok: "\<not> typeError [(''id'', JStr ''a'')]"
    by (simp add: typeError_def stringOrNull_def)
  have dp: "depth (JObj [(''id'', JStr ''a'')]) \<le> maxNestingDepth"
    by (simp add: maxNestingDepth_def)
  have fv: "fieldValue FieldID [(''id'', JStr ''a'')] = ''a''"
    "fieldValue FieldSig [(''id'', JStr ''a'')] = []"
    by (simp_all add: fieldValue_def stringsFor_def fieldByName_def)
  from DecodePayload_object[OF DecodeString_examples(4) parsesAs_examples(3) dp ok]
  show ?thesis by (simp only: fv)
qed

theorem DecodePayload_missing_fields_counterexample:
  "DecodeString ''e30'' = Some ''{}''
   \<and> DecodePayload ''e30'' = Inr \<lparr>payload_ID = [], payload_Sig = []\<rparr>
   \<and> DecodeString ''eyJpZCI6ImEifQ'' = Some [CHR ''{'', CHR 0x22, CHR ''i'', CHR ''d'', CHR 0x22, CHR '':'', CHR 0x22, CHR ''a'', CHR 0x22, CHR ''}'']
   \<and> DecodePayload ''eyJpZCI6ImEifQ'' = Inr \<lparr>payload_ID = ''a'', payload_Sig = []\<rparr>"
proof -
  have "DecodePayload ''e30'' = Inr \<lparr>payload_ID = [], payload_Sig = []\<rparr>"
    by (simp add: DecodePayload_def DecodeString_empty_object Unmarshal_empty_object)
  with DecodeString_empty_object DecodeString_examples(4) DecodePayload_id_only
  show ?thesis by blast
qed


text \<open>
  C8. Decoding an encoded payload returns the pair that was encoded, for every pair of
  strings that are well-formed UTF-8. \<open>json.Marshal\<close> writes a byte that is not part of a
  well-formed sequence as the escape of U+FFFD, and decoding gives the three bytes of
  U+FFFD in its place.
\<close>

theorem Decode_Encode_roundtrip:
  assumes "validUTF8 tid" and "validUTF8 signature"
  shows "\<exists>e. EncodePayload tid signature = Inr e \<and>
             DecodePayload e = Inr \<lparr>payload_ID = tid, payload_Sig = signature\<rparr>"
proof -
  from DecodePayload_EncodePayload[OF assms]
  have "EncodePayload tid signature
          = Inr (EncodeToString (Marshal \<lparr>payload_ID = tid, payload_Sig = signature\<rparr>))"
    and "DecodePayload (EncodeToString (Marshal \<lparr>payload_ID = tid, payload_Sig = signature\<rparr>))
          = Inr \<lparr>payload_ID = tid, payload_Sig = signature\<rparr>"
    by simp_all
  then show ?thesis by blast
qed

lemma validUTF8_examples:
  "validUTF8 ''30313233-3435-3637-3839-616263646566''"
  "validUTF8 [CHR ''<'', CHR 0x22, CHR 0xC3, CHR 0xA9, CHR 0x0A, CHR 0xE2, CHR 0x80, CHR 0xA8]"
  by (simp_all add: DecodeRune_def inRange_def RuneError_def)

theorem Decode_Encode_roundtrip_witness:
  "validUTF8 ''30313233-3435-3637-3839-616263646566''
   \<and> validUTF8 [CHR ''<'', CHR 0x22, CHR 0xC3, CHR 0xA9, CHR 0x0A, CHR 0xE2, CHR 0x80, CHR 0xA8]
   \<and> (\<exists>e. EncodePayload ''30313233-3435-3637-3839-616263646566''
              [CHR ''<'', CHR 0x22, CHR 0xC3, CHR 0xA9, CHR 0x0A, CHR 0xE2, CHR 0x80, CHR 0xA8] = Inr e
          \<and> DecodePayload e =
              Inr \<lparr>payload_ID = ''30313233-3435-3637-3839-616263646566'',
                   payload_Sig = [CHR ''<'', CHR 0x22, CHR 0xC3, CHR 0xA9, CHR 0x0A, CHR 0xE2, CHR 0x80, CHR 0xA8]\<rparr>)"
  using Decode_Encode_roundtrip[OF validUTF8_examples] validUTF8_examples by blast

lemma lexString_invalid_byte:
  "lexString (appendBody [CHR 0xFF] @ CHR 0x22 # X) = Some ([CHR 0xEF, CHR 0xBF, CHR 0xBD], X)"
proof -
  have a: "appendBody [CHR 0xFF] = [CHR 0x5C, CHR ''u'', CHR ''f'', CHR ''f'', CHR ''f'', CHR ''d'']"
    by (simp add: DecodeRune_def RuneError_def)
  have g: "getu4 (CHR 0x5C # CHR ''u'' # CHR ''f'' # CHR ''f'' # CHR ''f'' # CHR ''d'' # CHR 0x22 # X)
      = Some 65533"
    by (simp add: getu4_def hex4_def xvalue_def)
  have e: "EncodeRune 65533 = [CHR 0xEF, CHR 0xBF, CHR 0xBD]"
    by (simp add: EncodeRune_def char_of_eq_iff)
  have st: "unquoteStep (CHR 0x5C # [CHR ''u'', CHR ''f'', CHR ''f'', CHR ''f'', CHR ''d''] @ CHR 0x22 # X)
      = Some ([CHR 0xEF, CHR 0xBF, CHR 0xBD], Suc (length [CHR ''u'', CHR ''f'', CHR ''f'', CHR ''f'', CHR ''d'']))"
    using g by (simp add: unquoteStep_def unquoteEscape_def e)
  have q: "lexString (CHR 0x22 # X) = Some ([], X)" by simp
  from lexString_step[OF _ st q] show ?thesis unfolding a by simp
qed

lemma Unmarshal_invalid_byte:
  "Unmarshal (Marshal \<lparr>payload_ID = [CHR 0xFF], payload_Sig = []\<rparr>)
     = Some \<lparr>payload_ID = [CHR 0xEF, CHR 0xBF, CHR 0xBD], payload_Sig = []\<rparr>"
proof -
  have s1: "lex (appendString [CHR 0xFF] @ X) = map_option ((#) (Str [CHR 0xEF, CHR 0xBF, CHR 0xBD])) (lex X)"
    for X
  proof -
    have "lex (CHR 0x22 # appendBody [CHR 0xFF] @ CHR 0x22 # X)
        = map_option ((#) (Str [CHR 0xEF, CHR 0xBF, CHR 0xBD])) (lex X)"
      using lexString_invalid_byte[of X] by (simp add: isSpace_def)
    then show ?thesis by (simp add: appendString_def)
  qed
  have v0: "validUTF8 []" by simp
  have m: "Marshal \<lparr>payload_ID = [CHR 0xFF], payload_Sig = []\<rparr> =
      CHR ''{'' # appendString ''id'' @ CHR '':'' # appendString [CHR 0xFF] @
      CHR '','' # appendString ''sig'' @ CHR '':'' # appendString [] @ CHR ''}'' # []"
    by (simp add: Marshal_def)
  have l: "lex (Marshal \<lparr>payload_ID = [CHR 0xFF], payload_Sig = []\<rparr>) =
      Some [BeginObject, Str ''id'', Colon, Str [CHR 0xEF, CHR 0xBF, CHR 0xBD], Comma,
            Str ''sig'', Colon, Str [], EndObject]"
    unfolding m
    by (simp only: lex_punct s1 lex_appendString[OF v0]
        lex_appendString[OF validUTF8_names(1)] lex_appendString[OF validUTF8_names(2)]
        lex.simps(1) option.map)
  show ?thesis
    unfolding Unmarshal_def l by (simp add: checkValid_members object_members)
qed

theorem roundtrip_invalid_utf8_counterexample:
  "EncodePayload [CHR 0xFF] [] = Inr ''eyJpZCI6Ilx1ZmZmZCIsInNpZyI6IiJ9''
   \<and> DecodePayload ''eyJpZCI6Ilx1ZmZmZCIsInNpZyI6IiJ9''
       = Inr \<lparr>payload_ID = [CHR 0xEF, CHR 0xBF, CHR 0xBD], payload_Sig = []\<rparr>
   \<and> \<lparr>payload_ID = [CHR 0xEF, CHR 0xBF, CHR 0xBD], payload_Sig = []\<rparr>
       \<noteq> \<lparr>payload_ID = [CHR 0xFF], payload_Sig = []\<rparr>"
proof -
  have m: "Marshal \<lparr>payload_ID = [CHR 0xFF], payload_Sig = []\<rparr> =
      [CHR ''{'', CHR 0x22, CHR ''i'', CHR ''d'', CHR 0x22, CHR '':'', CHR 0x22,
       CHR 0x5C, CHR ''u'', CHR ''f'', CHR ''f'', CHR ''f'', CHR ''d'', CHR 0x22,
       CHR '','', CHR 0x22, CHR ''s'', CHR ''i'', CHR ''g'', CHR 0x22, CHR '':'',
       CHR 0x22, CHR 0x22, CHR ''}'']"
    by (simp add: Marshal_def appendString_def htmlSafe_def DecodeRune_def RuneError_def)
  have e: "EncodeToString (Marshal \<lparr>payload_ID = [CHR 0xFF], payload_Sig = []\<rparr>)
      = ''eyJpZCI6Ilx1ZmZmZCIsInNpZyI6IiJ9''"
    unfolding m by (simp add: encodeURL_def Let_def)
  have enc: "EncodePayload [CHR 0xFF] [] = Inr ''eyJpZCI6Ilx1ZmZmZCIsInNpZyI6IiJ9''"
    by (simp only: EncodePayload_def e)
  have "DecodePayload (EncodeToString (Marshal \<lparr>payload_ID = [CHR 0xFF], payload_Sig = []\<rparr>))
      = Inr \<lparr>payload_ID = [CHR 0xEF, CHR 0xBF, CHR 0xBD], payload_Sig = []\<rparr>"
    by (simp add: DecodePayload_def DecodeString_EncodeToString Unmarshal_invalid_byte)
  then have dec: "DecodePayload ''eyJpZCI6Ilx1ZmZmZCIsInNpZyI6IiJ9''
      = Inr \<lparr>payload_ID = [CHR 0xEF, CHR 0xBF, CHR 0xBD], payload_Sig = []\<rparr>"
    by (simp only: e)
  have ne: "\<lparr>payload_ID = [CHR 0xEF, CHR 0xBF, CHR 0xBD], payload_Sig = []\<rparr>
       \<noteq> \<lparr>payload_ID = [CHR 0xFF], payload_Sig = []\<rparr>"
    by simp
  from enc dec ne show ?thesis by blast
qed

end
